theory Spec2Isabelle
  imports Main "HOL-Library.Word"
begin

unbundle bit_operations_syntax

section \<open>The Teensy's pins, as the sketch uses them\<close>

text \<open>
  The sketch \<^verbatim>\<open>ROM_Dump.ino\<close> talks to the V20's bus through the Arduino primitives
  \<^verbatim>\<open>pinMode\<close>, \<^verbatim>\<open>digitalWrite\<close>, \<^verbatim>\<open>digitalRead\<close> and \<^verbatim>\<open>delayMicroseconds\<close>, to the
  operator through \<^verbatim>\<open>Serial\<close> and to the SD card through SdFat. The model keeps a
  record of the machine (the direction and output latch of every pin, the sketch's
  globals) together with the list of every call made so far, oldest first. That list is
  what a line recorder clipped onto the board would log.

  A logic level is a \<open>bool\<close>: \<^verbatim>\<open>HIGH\<close> is \<open>True\<close>, \<^verbatim>\<open>LOW\<close> is \<open>False\<close>.
\<close>

type_synonym pin = nat
type_synonym byte = "8 word"

datatype pmode = INPUT | OUTPUT

abbreviation (input) HIGH :: bool where "HIGH \<equiv> True"
abbreviation (input) LOW :: bool where "LOW \<equiv> False"

text \<open>Values for BUSRQ (bus hold request) and BUSAK (bus hold acknowledge).\<close>

abbreviation (input) BUS_HOLD :: bool where "BUS_HOLD \<equiv> HIGH"
abbreviation (input) BUS_RELEASE :: bool where "BUS_RELEASE \<equiv> LOW"
abbreviation (input) BUS_ACK :: bool where "BUS_ACK \<equiv> HIGH"
abbreviation (input) BUS_NAK :: bool where "BUS_NAK \<equiv> LOW"

definition ADDRESS_BUS_WIDTH :: nat where "ADDRESS_BUS_WIDTH = 20"
definition DATA_BUS_WIDTH :: nat where "DATA_BUS_WIDTH = 8"

text \<open>Teensy pin definitions.\<close>

definition ASTB :: pin where "ASTB = 37"
definition BUFEN :: pin where "BUFEN = 38"
definition BUFRW :: pin where "BUFRW = 39"
definition IOMEM :: pin where "IOMEM = 14"
definition WR :: pin where "WR = 15"
definition HLDAK :: pin where "HLDAK = 16"
definition HLDRQ :: pin where "HLDRQ = 17"
definition RD :: pin where "RD = 18"

text \<open>
  \<^verbatim>\<open>LED_BUILTIN\<close> comes from the Teensy core, not from the sketch; the sketch's
  header comment gives its value: pin 13.
\<close>

definition LED_BUILTIN :: pin where "LED_BUILTIN = 13"

text \<open>Teensy pin mapping of the address/data bus, starting from the LSB.\<close>

definition bus_pins :: "pin list" where
  "bus_pins = [25, 24, 12, 11, 10, 9, 8, 7, 6, 5, 4, 3, 2, 1, 0, 23, 22, 21, 20, 19]"

datatype event =
    PinMode pin pmode
  | DigitalWrite pin bool
  | DigitalRead pin
  | DelayMicroseconds nat
  | Delay nat
  | SerialBegin nat
  | SerialPrint string
  | SdOpen string
  | FileWrite byte
  | FileClose

record machine =
  pin_dir :: "pin \<Rightarrow> pmode"
  pin_out :: "pin \<Rightarrow> bool"
  trace :: "event list"
  file_number :: nat
  filename :: string
  dumpfile :: "byte list"
  serial_in :: string

text \<open>
  Everything outside the Teensy is a \<open>world\<close>: the level the board presents on a pin
  when it is read, whether the card accepts an operation, and what a file on the card
  already holds when it is opened. Each answer may depend on everything the sketch has
  done so far, so a memory device can answer to the address that was latched and the V20
  can take its time to acknowledge.
\<close>

record world =
  level :: "event list \<Rightarrow> pin \<Rightarrow> bool"
  sd_begin_ok :: bool
  sd_exists :: "string \<Rightarrow> bool"
  open_ok :: "event list \<Rightarrow> bool"
  file_at_open :: "event list \<Rightarrow> string \<Rightarrow> byte list"
  write_ok :: "event list \<Rightarrow> bool"
  close_ok :: "event list \<Rightarrow> bool"

definition log :: "event \<Rightarrow> machine \<Rightarrow> machine" where
  "log e s = s\<lparr>trace := trace s @ [e]\<rparr>"

definition pinMode :: "pin \<Rightarrow> pmode \<Rightarrow> machine \<Rightarrow> machine" where
  "pinMode p m s = log (PinMode p m) (s\<lparr>pin_dir := (pin_dir s)(p := m)\<rparr>)"

definition digitalWrite :: "pin \<Rightarrow> bool \<Rightarrow> machine \<Rightarrow> machine" where
  "digitalWrite p v s = log (DigitalWrite p v) (s\<lparr>pin_out := (pin_out s)(p := v)\<rparr>)"

definition digitalRead :: "world \<Rightarrow> pin \<Rightarrow> machine \<Rightarrow> bool \<times> machine" where
  "digitalRead w p s = (level w (trace s) p, log (DigitalRead p) s)"

definition delayMicroseconds :: "nat \<Rightarrow> machine \<Rightarrow> machine" where
  "delayMicroseconds n s = log (DelayMicroseconds n) s"

definition delay :: "nat \<Rightarrow> machine \<Rightarrow> machine" where
  "delay ms s = log (Delay ms) s"

definition Serial_begin :: "nat \<Rightarrow> machine \<Rightarrow> machine" where
  "Serial_begin baud s = log (SerialBegin baud) s"

definition Serial_print :: "string \<Rightarrow> machine \<Rightarrow> machine" where
  "Serial_print str s = log (SerialPrint str) s"

text \<open>\<^verbatim>\<open>println\<close> sends the text and then a carriage return and a line feed.\<close>

definition Serial_println :: "string \<Rightarrow> machine \<Rightarrow> machine" where
  "Serial_println str s = Serial_print (str @ [CHR 0x0D, CHR 0x0A]) s"

section \<open>Address driver and data sampler\<close>

text \<open>
  \<^verbatim>\<open>for (int i=0; i < N; i++) body(i)\<close> with a constant \<open>N\<close> is a fold of the body
  over \<open>[0..<N]\<close>. \<^verbatim>\<open>unsigned long\<close> is 32 bits wide on the Teensy 3.5.
\<close>

definition tristate_address_pins :: "machine \<Rightarrow> machine" where
  "tristate_address_pins s =
     fold (\<lambda>i. pinMode (bus_pins ! i) INPUT) [0..<ADDRESS_BUS_WIDTH] s"

definition drive_address :: "32 word \<Rightarrow> machine \<Rightarrow> machine" where
  "drive_address addr s =
     fold (\<lambda>i s. digitalWrite (bus_pins ! i) (addr AND push_bit i 1 \<noteq> 0)
                    (pinMode (bus_pins ! i) OUTPUT s))
          [0..<20] s"

definition tristate_data_pins :: "machine \<Rightarrow> machine" where
  "tristate_data_pins s =
     fold (\<lambda>i. pinMode (bus_pins ! i) INPUT) [0..<DATA_BUS_WIDTH] s"

text \<open>
  The body of the loop of \<^verbatim>\<open>read_data\<close>:
  \<^verbatim>\<open>if (digitalRead(bus_pins[i])) { val |= (1 << i); }\<close>
\<close>

definition read_bit :: "world \<Rightarrow> nat \<Rightarrow> byte \<times> machine \<Rightarrow> byte \<times> machine" where
  "read_bit w i = (\<lambda>(val, s).
     case digitalRead w (bus_pins ! i) s of
       (b, s') \<Rightarrow> (if b then val OR push_bit i 1 else val, s'))"

definition read_data :: "world \<Rightarrow> machine \<Rightarrow> byte \<times> machine" where
  "read_data w s = fold (read_bit w) [0..<8] (0, s)"

section \<open>Bus control signals and the read cycle\<close>

text \<open>Set all the bus control signals to driven with the idle values.\<close>

definition bus_state_driven_idle :: "machine \<Rightarrow> machine" where
  "bus_state_driven_idle s0 =
     (let s1 = pinMode BUFEN OUTPUT (digitalWrite BUFEN HIGH s0);
          s2 = pinMode BUFRW OUTPUT (digitalWrite BUFRW LOW s1);
          s3 = pinMode ASTB OUTPUT (digitalWrite ASTB LOW s2);
          s4 = pinMode RD OUTPUT (digitalWrite RD HIGH s3);
          s5 = pinMode WR OUTPUT (digitalWrite WR HIGH s4);
          s6 = pinMode IOMEM OUTPUT (digitalWrite IOMEM LOW s5)
      in s6)"

text \<open>Set all the bus control signals and the address bus to tristate (undriven).\<close>

definition bus_state_not_driven :: "machine \<Rightarrow> machine" where
  "bus_state_not_driven s0 =
     (let s1 = pinMode BUFEN INPUT s0;
          s2 = pinMode BUFRW INPUT s1;
          s3 = pinMode ASTB INPUT s2;
          s4 = pinMode RD INPUT s3;
          s5 = pinMode WR INPUT s4;
          s6 = pinMode IOMEM INPUT s5
      in tristate_address_pins s6)"

text \<open>Perform a single read cycle on the bus and return the result.\<close>

definition bus_read_cycle :: "world \<Rightarrow> 32 word \<Rightarrow> machine \<Rightarrow> byte \<times> machine" where
  "bus_read_cycle w address s0 =
     (let s1 = drive_address address s0;
          s2 = digitalWrite ASTB HIGH s1;
          s3 = digitalWrite ASTB LOW s2;
          s4 = tristate_data_pins s3;
          s5 = digitalWrite RD LOW s4;
          s6 = digitalWrite BUFEN LOW s5;
          s7 = delayMicroseconds 1 s6;
          (val, s8) = read_data w s7;
          s9 = digitalWrite BUFEN HIGH s8;
          s10 = digitalWrite RD HIGH s9
      in (val, s10))"

section \<open>File names\<close>

text \<open>
  A function of the sketch either returns or ends in \<^verbatim>\<open>while (1);\<close> after
  a message (the sketch's "panic"): the operator has to restart the board. The outcome
  keeps the machine as it stood at that point.
\<close>

datatype fatal = SdBeginFailed | TooManyFiles | OpenFailed

datatype outcome = Halted fatal machine | Returned machine

text \<open>
  \<^verbatim>\<open>sprintf(filename, "CWMEM%03d.BIN", file_number)\<close>: the number in decimal, padded
  with zeros on the left to three characters at least. \<^verbatim>\<open>file_number\<close> is an
  \<^verbatim>\<open>int\<close> that starts at 0 and is only ever incremented, up to 1000 at most, so
  it is a \<open>nat\<close> here.
\<close>

definition digit_char :: "nat \<Rightarrow> char" where
  "digit_char d = char_of (48 + d)"

fun decimal :: "nat \<Rightarrow> string" where
  "decimal n = (if n < 10 then [digit_char n] else decimal (n div 10) @ [digit_char (n mod 10)])"

declare decimal.simps [simp del]

definition fmt_03d :: "nat \<Rightarrow> string" where
  "fmt_03d n = replicate (3 - length (decimal n)) (CHR ''0'') @ decimal n"

definition sprintf_CWMEM :: "nat \<Rightarrow> string" where
  "sprintf_CWMEM n = ''CWMEM'' @ fmt_03d n @ ''.BIN''"

text \<open>Go the next file number and name in sequence.\<close>

definition next_file :: "machine \<Rightarrow> outcome" where
  "next_file s0 =
     (let s1 = s0\<lparr>file_number := file_number s0 + 1\<rparr> in
      if file_number s1 > 999 then
        Halted TooManyFiles
          (Serial_println ''Too many files for our naming convention. Clean off the SD card!'' s1)
      else Returned (s1\<lparr>filename := sprintf_CWMEM (file_number s1)\<rparr>))"

section \<open>Startup\<close>

text \<open>
  The globals as the sketch initialises them, on a board whose pins are all inputs, as
  they are after reset; \<open>keys\<close> is what the operator is going to type.
\<close>

definition power_on :: "string \<Rightarrow> machine" where
  "power_on keys =
     \<lparr>pin_dir = (\<lambda>_. INPUT), pin_out = (\<lambda>_. LOW), trace = [],
      file_number = 0, filename = ''CWMEM000.BIN'', dumpfile = [], serial_in = keys\<rparr>"

text \<open>
  \<^verbatim>\<open>while (sd.exists(filename)) { next_file(); }\<close>: find the next filename in order
  that is not already used. It ends, because \<^verbatim>\<open>next_file\<close> halts at 1000.
\<close>

function skip_existing :: "world \<Rightarrow> machine \<Rightarrow> outcome" where
  "skip_existing w s =
     (if sd_exists w (filename s) then
        (case next_file s of
           Halted f s' \<Rightarrow> Halted f s'
         | Returned s' \<Rightarrow> skip_existing w s')
      else Returned s)"
  by pat_completeness auto
termination
  by (relation "measure (\<lambda>(w, s). 1000 - file_number s)")
     (auto simp: next_file_def Let_def split: if_splits)

declare skip_existing.simps [simp del]

definition sketch_setup :: "world \<Rightarrow> machine \<Rightarrow> outcome" where
  "sketch_setup w s0 =
     (let s1 = delay 1000 s0;
          s2 = Serial_begin 9600 s1;
          s3 = Serial_println ''Cadetwriter ROM dumper 0.2'' s2;
          s4 = pinMode HLDRQ OUTPUT s3;
          s5 = digitalWrite HLDRQ BUS_RELEASE s4;
          s6 = pinMode HLDAK INPUT s5;
          s7 = pinMode LED_BUILTIN OUTPUT s6
      in if \<not> sd_begin_ok w then
           Halted SdBeginFailed
             (Serial_println ''SdFatSdioEX begin() failed''
               (Serial_println ''SD card not working!'' s7))
         else
           (case skip_existing w s7 of
              Halted f s8 \<Rightarrow> Halted f s8
            | Returned s8 \<Rightarrow>
                Returned
                  (if file_number s8 = 1 then
                     Serial_println ''One dump file already exists on this SD card.'' s8
                   else if file_number s8 > 1 then
                     Serial_println '' dump files already exist on this SD card.''
                       (Serial_print (decimal (file_number s8)) s8)
                   else s8)))"

section \<open>The dump\<close>

text \<open>
  \<^verbatim>\<open>while (!Serial.available() || Serial.read() != '\n');\<close> reads what the operator
  types up to the first line feed. With no line feed to come it never returns: \<open>None\<close>.
\<close>

fun read_until_newline :: "string \<Rightarrow> string option" where
  "read_until_newline [] = None"
| "read_until_newline (c # cs) = (if c \<noteq> CHR 0x0A then read_until_newline cs else Some cs)"

text \<open>
  \<^verbatim>\<open>while (digitalRead(HLDAK) != BUS_ACK);\<close> and
  \<^verbatim>\<open>while (digitalRead(HLDAK) == BUS_ACK);\<close> poll the acknowledge line with no
  timeout. A loop that polls for ever has the value \<open>None\<close>.
\<close>

partial_function (option) await_ack :: "world \<Rightarrow> machine \<Rightarrow> machine option" where
  "await_ack w s =
     (case digitalRead w HLDAK s of
        (v, s') \<Rightarrow> if v \<noteq> BUS_ACK then await_ack w s' else Some s')"

partial_function (option) await_nak :: "world \<Rightarrow> machine \<Rightarrow> machine option" where
  "await_nak w s =
     (case digitalRead w HLDAK s of
        (v, s') \<Rightarrow> if v = BUS_ACK then await_nak w s' else Some s')"

text \<open>
  \<^verbatim>\<open>dumpfile\<close> is the contents of the file that is open for the dump.
  \<^verbatim>\<open>sd.open(filename, FILE_WRITE)\<close> creates the file when it is missing, keeps what
  an existing file holds, and writes at its end (SdFat's \<^verbatim>\<open>FILE_WRITE\<close> is
  \<^verbatim>\<open>O_RDWR | O_CREAT | O_AT_END\<close>): the contents at the open are \<open>file_at_open\<close>
  of the world, empty for a file that is created. \<^verbatim>\<open>dumpfile.write(b)\<close> returns the
  number of bytes written, which the sketch ignores: 1 and the byte is stored at the end,
  or 0 and nothing is.
\<close>

definition File_write :: "world \<Rightarrow> byte \<Rightarrow> machine \<Rightarrow> machine" where
  "File_write w b s =
     log (FileWrite b)
       (if write_ok w (trace s) then s\<lparr>dumpfile := dumpfile s @ [b]\<rparr> else s)"

text \<open>\<^verbatim>\<open>dumpfile.write(bus_read_cycle(addr));   // ignoring any errors here.\<close>\<close>

definition dump_byte :: "world \<Rightarrow> 32 word \<Rightarrow> machine \<Rightarrow> machine" where
  "dump_byte w addr s = (case bus_read_cycle w addr s of (val, s') \<Rightarrow> File_write w val s')"

text \<open>\<^verbatim>\<open>for (unsigned long addr=0; addr <= 0xFFFFFul; addr++)\<close>, from any \<open>addr\<close>.\<close>

function dump_loop :: "world \<Rightarrow> 32 word \<Rightarrow> machine \<Rightarrow> machine" where
  "dump_loop w addr s =
     (if addr \<le> 0xFFFFF then dump_loop w (addr + 1) (dump_byte w addr s) else s)"
  by pat_completeness auto
termination
proof (relation "measure (\<lambda>(w, addr, s). 1048576 - unat addr)")
  show "wf (measure (\<lambda>(w, addr, s). 1048576 - unat addr))"
    by simp
next
  fix w :: world and addr :: "32 word" and s :: machine
  assume le: "addr \<le> 0xFFFFF"
  then have "unat addr \<le> 1048575"
    by (simp add: word_le_nat_alt)
  moreover from this have "unat (addr + 1) = unat addr + 1"
    by (simp add: unat_word_ariths)
  ultimately show "((w, addr + 1, dump_byte w addr s), (w, addr, s))
      \<in> measure (\<lambda>(w, addr, s). 1048576 - unat addr)"
    by simp
qed

declare dump_loop.simps [simp del]

definition File_close :: "world \<Rightarrow> machine \<Rightarrow> bool \<times> machine" where
  "File_close w s = (close_ok w (trace s), log FileClose s)"

section \<open>The main loop\<close>

text \<open>
  \<^verbatim>\<open>loop()\<close> in four parts, in the order of the source: the prompt, seizing the bus
  (\<open>loop_seize\<close>), the dump into the file of the current name with the control signals
  driven (\<open>loop_capture\<close>), releasing the bus (\<open>loop_release\<close>), and the report with the
  step to the next file name.
\<close>

definition loop_seize :: "world \<Rightarrow> machine \<Rightarrow> machine option" where
  "loop_seize w s0 =
     (let s1 = Serial_print ''Seizing the bus ... '' s0;
          s2 = digitalWrite HLDRQ BUS_HOLD s1
      in case await_ack w s2 of
           None \<Rightarrow> None
         | Some s3 \<Rightarrow> Some (Serial_println ''ok'' s3))"

definition loop_capture :: "world \<Rightarrow> machine \<Rightarrow> outcome" where
  "loop_capture w s0 =
     (let s1 = bus_state_driven_idle s0;
          s2 = log (SdOpen (filename s1)) s1
      in if \<not> open_ok w (trace s1) then
           Halted OpenFailed (Serial_println (filename s2) (Serial_print ''Failed to open '' s2))
         else
           (let s3 = Serial_println ''Dumping ...''
                      (s2\<lparr>dumpfile := file_at_open w (trace s1) (filename s1)\<rparr>);
                s4 = dump_loop w 0 s3;
                (closed, s5) = File_close w s4;
                s6 = (if \<not> closed then
                        Serial_println (filename s5) (Serial_print ''Failed to close '' s5)
                      else s5)
            in Returned s6))"

definition loop_release :: "world \<Rightarrow> machine \<Rightarrow> machine option" where
  "loop_release w s0 =
     (let s1 = Serial_print ''Releasing the bus ... '' s0;
          s2 = digitalWrite HLDRQ BUS_RELEASE s1
      in case await_nak w s2 of
           None \<Rightarrow> None
         | Some s3 \<Rightarrow> Some (Serial_println ''ok'' s3))"

definition loop :: "world \<Rightarrow> machine \<Rightarrow> outcome option" where
  "loop w s0 =
     (let s1 = Serial_println
                 ([CHR 0x0A, CHR 0x0A] @ ''Hit Enter to dump the entire address space to a file.'')
                 s0
      in case read_until_newline (serial_in s1) of
           None \<Rightarrow> None
         | Some rest \<Rightarrow>
             (case loop_seize w (s1\<lparr>serial_in := rest\<rparr>) of
                None \<Rightarrow> None
              | Some s2 \<Rightarrow>
                  (case loop_capture w (digitalWrite LED_BUILTIN HIGH s2) of
                     Halted f s3 \<Rightarrow> Some (Halted f s3)
                   | Returned s3 \<Rightarrow>
                       (case loop_release w s3 of
                          None \<Rightarrow> None
                        | Some s4 \<Rightarrow>
                            (let s5 = digitalWrite LED_BUILTIN LOW s4;
                                 s6 = Serial_print ''Memory dumped to file '' s5;
                                 s7 = Serial_println (filename s6) s6
                             in Some (next_file s7))))))"



section \<open>What a line recorder is expected to show\<close>

text \<open>
  The seven steps of a read cycle as the specification lists them, each as the calls a
  recorder on the lines logs for it. Line \<open>i\<close> of the bus is pin \<open>bus_pins ! i\<close>.
\<close>

definition step_drive :: "32 word \<Rightarrow> event list" where
  "step_drive a =
     concat (map (\<lambda>i. [PinMode (bus_pins ! i) OUTPUT, DigitalWrite (bus_pins ! i) (bit a i)])
                 [0..<20])"

definition step_strobe :: "event list" where
  "step_strobe = [DigitalWrite ASTB HIGH, DigitalWrite ASTB LOW]"

definition step_float :: "event list" where
  "step_float = map (\<lambda>i. PinMode (bus_pins ! i) INPUT) [0..<8]"

definition step_enable :: "event list" where
  "step_enable = [DigitalWrite RD LOW, DigitalWrite BUFEN LOW]"

definition step_settle :: "event list" where
  "step_settle = [DelayMicroseconds 1]"

definition step_sample :: "nat \<Rightarrow> event list" where
  "step_sample n = map (\<lambda>i. DigitalRead (bus_pins ! i)) [0..<n]"

definition step_disable :: "event list" where
  "step_disable = [DigitalWrite BUFEN HIGH, DigitalWrite RD HIGH]"

text \<open>
  The byte on the low eight lines as they are read one after the other, the first read
  coming after the calls \<open>tr\<close>: bit \<open>i\<close> is the level of line \<open>i\<close> at its read.
\<close>

definition byte_on_lines :: "world \<Rightarrow> event list \<Rightarrow> byte" where
  "byte_on_lines w tr =
     horner_sum of_bool 2 (map (\<lambda>i. level w (tr @ step_sample i) (bus_pins ! i)) [0..<8])"

text \<open>The calls a function adds to the log.\<close>

definition added :: "machine \<Rightarrow> machine \<Rightarrow> event list" where
  "added s s' = drop (length (trace s)) (trace s')"

text \<open>\<open>happens_before a b tr\<close>: both calls are in \<open>tr\<close>, and the first \<open>a\<close> comes before the first \<open>b\<close>.\<close>

fun first_index :: "'a \<Rightarrow> 'a list \<Rightarrow> nat option" where
  "first_index x [] = None"
| "first_index x (y # ys) = (if x = y then Some 0 else map_option Suc (first_index x ys))"

definition happens_before :: "event \<Rightarrow> event \<Rightarrow> event list \<Rightarrow> bool" where
  "happens_before a b tr =
     (case first_index a tr of
        None \<Rightarrow> False
      | Some i \<Rightarrow> (case first_index b tr of None \<Rightarrow> False | Some j \<Rightarrow> i < j))"

text \<open>The machine after the dump of the addresses \<open>0\<close> to \<open>n - 1\<close>.\<close>

definition dump_upto :: "world \<Rightarrow> nat \<Rightarrow> machine \<Rightarrow> machine" where
  "dump_upto w n s = fold (\<lambda>k. dump_byte w (word_of_nat k)) [0..<n] s"

text \<open>The sketch's own variables; the pins and the log are the rest of the machine.\<close>

definition globals :: "machine \<Rightarrow> nat \<times> string \<times> byte list \<times> string" where
  "globals s = (file_number s, filename s, dumpfile s, serial_in s)"

text \<open>The bytes handed to \<^verbatim>\<open>dumpfile.write\<close>, in order, accepted or not.\<close>

definition forwarded :: "event list \<Rightarrow> byte list" where
  "forwarded tr = concat (map (\<lambda>e. case e of FileWrite b \<Rightarrow> [b] | _ \<Rightarrow> []) tr)"

text \<open>
  The external address latch on the board: it follows the levels written to the pins,
  and at each falling edge of the strobe it captures the number on the twenty bus lines,
  line 0 the least significant bit.
\<close>

record probe =
  lines :: "pin \<Rightarrow> bool"
  strobe :: bool
  latched :: "nat list"

fun observe :: "event \<Rightarrow> probe \<Rightarrow> probe" where
  "observe (DigitalWrite p v) pr =
     (if p = ASTB then
        (if strobe pr \<and> \<not> v then
           pr\<lparr>strobe := v, latched := latched pr @ [horner_sum of_bool 2 (map (lines pr) bus_pins)]\<rparr>
         else pr\<lparr>strobe := v\<rparr>)
      else pr\<lparr>lines := (lines pr)(p := v)\<rparr>)"
| "observe _ pr = pr"

definition latched_addresses :: "event list \<Rightarrow> nat list" where
  "latched_addresses tr =
     latched (fold observe tr \<lparr>lines = (\<lambda>_. LOW), strobe = LOW, latched = []\<rparr>)"

section \<open>The handshake on the log\<close>

text \<open>
  \<open>polls n\<close> are \<open>n\<close> reads of the acknowledge line. \<open>polled_until w v tr n\<close>: of the
  polls that follow the calls \<open>tr\<close>, poll number \<open>n\<close> (counting from 0) is the first one
  that shows the level \<open>v\<close>.
\<close>

definition polls :: "nat \<Rightarrow> event list" where
  "polls n = replicate n (DigitalRead HLDAK)"

definition polled_until :: "world \<Rightarrow> bool \<Rightarrow> event list \<Rightarrow> nat \<Rightarrow> bool" where
  "polled_until w v tr n =
     (level w (tr @ polls n) HLDAK = v
      \<and> list_all (\<lambda>i. level w (tr @ polls i) HLDAK \<noteq> v) [0..<n])"

text \<open>A call touches the bus when it sets, writes or reads one of the twenty bus lines or
  one of the six control lines; it writes the hold request when it writes \<^verbatim>\<open>HLDRQ\<close>.\<close>

definition bus_lines :: "pin list" where
  "bus_lines = bus_pins @ [BUFEN, BUFRW, ASTB, RD, WR, IOMEM]"

fun touches_bus :: "event \<Rightarrow> bool" where
  "touches_bus (PinMode p m) = (p \<in> set bus_lines)"
| "touches_bus (DigitalWrite p v) = (p \<in> set bus_lines)"
| "touches_bus (DigitalRead p) = (p \<in> set bus_lines)"
| "touches_bus _ = False"

fun writes_hold :: "event \<Rightarrow> bool" where
  "writes_hold (DigitalWrite p v) = (p = HLDRQ)"
| "writes_hold _ = False"

fun state_of :: "outcome \<Rightarrow> machine" where
  "state_of (Halted f s) = s"
| "state_of (Returned s) = s"

text \<open>The pin directions a dump leaves: the data lines inputs, the other bus lines outputs.\<close>

definition after_dump :: "(pin \<Rightarrow> pmode) \<Rightarrow> pin \<Rightarrow> pmode" where
  "after_dump d p =
     (if p \<in> set (take 8 bus_pins) then INPUT else if p \<in> set bus_pins then OUTPUT else d p)"

section \<open>A simulated target\<close>

text \<open>
  A target for trying the sketch on: every memory read returns the byte \<open>b\<close>, the V20
  acknowledges a hold request or its withdrawal at the next poll, the card holds the
  files \<open>names\<close>, all of them empty, and accepts every operation.
\<close>

definition hold_requested :: "event list \<Rightarrow> bool" where
  "hold_requested tr =
     fold (\<lambda>e h. case e of DigitalWrite p v \<Rightarrow> (if p = HLDRQ then v else h) | _ \<Rightarrow> h) tr False"

definition simulated_target :: "byte \<Rightarrow> string list \<Rightarrow> world" where
  "simulated_target b names =
     \<lparr>level = (\<lambda>tr p. if p = HLDAK then hold_requested tr
                       else (case first_index p (take 8 bus_pins) of
                               None \<Rightarrow> False
                             | Some i \<Rightarrow> bit b i)),
      sd_begin_ok = True,
      sd_exists = (\<lambda>name. name \<in> set names),
      open_ok = (\<lambda>_. True),
      file_at_open = (\<lambda>_ _. []),
      write_ok = (\<lambda>_. True),
      close_ok = (\<lambda>_. True)\<rparr>"



section \<open>The primitives and the log\<close>

lemmas pin_defs = ASTB_def BUFEN_def BUFRW_def IOMEM_def WR_def HLDAK_def HLDRQ_def RD_def LED_BUILTIN_def

lemma trace_log [simp]: "trace (log e s) = trace s @ [e]"
  by (simp add: log_def)

lemma trace_pinMode [simp]: "trace (pinMode p m s) = trace s @ [PinMode p m]"
  by (simp add: pinMode_def)

lemma trace_digitalWrite [simp]: "trace (digitalWrite p v s) = trace s @ [DigitalWrite p v]"
  by (simp add: digitalWrite_def)

lemma trace_delay [simp]: "trace (delayMicroseconds n s) = trace s @ [DelayMicroseconds n]"
  by (simp add: delayMicroseconds_def)

lemma digitalRead_simps [simp]:
  "fst (digitalRead w p s) = level w (trace s) p"
  "snd (digitalRead w p s) = log (DigitalRead p) s"
  by (simp_all add: digitalRead_def)

lemma pin_dir_simps [simp]:
  "pin_dir (log e s) = pin_dir s"
  "pin_dir (pinMode p m s) = (pin_dir s)(p := m)"
  "pin_dir (digitalWrite p v s) = pin_dir s"
  "pin_dir (delayMicroseconds n s) = pin_dir s"
  by (simp_all add: log_def pinMode_def digitalWrite_def delayMicroseconds_def)

lemma pin_out_simps [simp]:
  "pin_out (log e s) = pin_out s"
  "pin_out (pinMode p m s) = pin_out s"
  "pin_out (digitalWrite p v s) = (pin_out s)(p := v)"
  "pin_out (delayMicroseconds n s) = pin_out s"
  by (simp_all add: log_def pinMode_def digitalWrite_def delayMicroseconds_def)

lemma addr_bit_test: "((addr :: 32 word) AND push_bit i 1 \<noteq> 0) = bit addr i"
  by (simp only: bit_iff_and_push_bit_not_eq_0)

lemma distinct_bus_pins: "distinct bus_pins"
  by (simp add: bus_pins_def)

lemma length_bus_pins [simp]: "length bus_pins = 20"
  by (simp add: bus_pins_def)

text \<open>The two shapes of loop over the bus lines.\<close>

lemma trace_fold_pinMode:
  "trace (fold (\<lambda>i. pinMode (f i) m) xs s) = trace s @ map (\<lambda>i. PinMode (f i) m) xs"
  by (induction xs arbitrary: s) simp_all

lemma trace_fold_drive:
  "trace (fold (\<lambda>i s. digitalWrite (f i) (g i) (pinMode (f i) m s)) xs s)
     = trace s @ concat (map (\<lambda>i. [PinMode (f i) m, DigitalWrite (f i) (g i)]) xs)"
  by (induction xs arbitrary: s) simp_all

lemma drive_address_bits:
  "drive_address addr s =
     fold (\<lambda>i s. digitalWrite (bus_pins ! i) (bit addr i) (pinMode (bus_pins ! i) OUTPUT s))
          [0..<20] s"
  by (simp only: drive_address_def addr_bit_test)

lemma trace_drive_address:
  "trace (drive_address addr s) = trace s @
     concat (map (\<lambda>i. [PinMode (bus_pins ! i) OUTPUT, DigitalWrite (bus_pins ! i) (bit addr i)]) [0..<20])"
  by (simp add: drive_address_bits trace_fold_drive)

lemma trace_tristate_data_pins:
  "trace (tristate_data_pins s) = trace s @ map (\<lambda>i. PinMode (bus_pins ! i) INPUT) [0..<8]"
  by (simp add: tristate_data_pins_def DATA_BUS_WIDTH_def trace_fold_pinMode)

lemma trace_serial [simp]:
  "trace (delay n s) = trace s @ [Delay n]"
  "trace (Serial_begin n s) = trace s @ [SerialBegin n]"
  "trace (Serial_print str s) = trace s @ [SerialPrint str]"
  "trace (Serial_println str s) = trace s @ [SerialPrint (str @ [CHR 0x0D, CHR 0x0A])]"
  by (simp_all add: delay_def Serial_begin_def Serial_print_def Serial_println_def)

subsection \<open>\<^verbatim>\<open>read_data\<close>, one line at a time\<close>

lemma step_sample_Suc: "step_sample (Suc n) = step_sample n @ [DigitalRead (bus_pins ! n)]"
  by (simp add: step_sample_def)

lemma read_bit_apply:
  "read_bit w i (v, s) =
     (if level w (trace s) (bus_pins ! i) then v OR push_bit i 1 else v,
      s\<lparr>trace := trace s @ [DigitalRead (bus_pins ! i)]\<rparr>)"
  by (simp add: read_bit_def digitalRead_def log_def)

lemma read_fold_state:
  "snd (fold (read_bit w) [0..<n] (0, s)) = s\<lparr>trace := trace s @ step_sample n\<rparr>"
proof (induction n)
  case 0
  show ?case by (simp add: step_sample_def)
next
  case (Suc n)
  obtain v s' where f: "fold (read_bit w) [0..<n] (0, s) = (v, s')"
    by (cases "fold (read_bit w) [0..<n] (0, s)")
  with Suc have s': "s' = s\<lparr>trace := trace s @ step_sample n\<rparr>" by simp
  have step: "fold (read_bit w) [0..<Suc n] (0, s) = read_bit w n (v, s')"
    by (simp add: f)
  show ?case
    unfolding step read_bit_apply by (simp add: s' step_sample_Suc)
qed

lemma read_fold_bit:
  "n \<le> 8 \<Longrightarrow> bit (fst (fold (read_bit w) [0..<n] (0, s))) i
     \<longleftrightarrow> i < n \<and> level w (trace s @ step_sample i) (bus_pins ! i)"
proof (induction n)
  case 0
  show ?case by simp
next
  case (Suc n)
  obtain v s' where f: "fold (read_bit w) [0..<n] (0, s) = (v, s')"
    by (cases "fold (read_bit w) [0..<n] (0, s)")
  have s': "s' = s\<lparr>trace := trace s @ step_sample n\<rparr>"
    using read_fold_state [of w n s] f by simp
  have v: "bit v i \<longleftrightarrow> i < n \<and> level w (trace s @ step_sample i) (bus_pins ! i)"
    using Suc f by simp
  have n: "n < 8" using Suc.prems by simp
  have step: "fold (read_bit w) [0..<Suc n] (0, s) = read_bit w n (v, s')"
    by (simp add: f)
  show ?case
    unfolding step read_bit_apply using n by (auto simp: s' v bit_simps less_Suc_eq)
qed

lemmas read_data_fold = read_data_def

lemma read_data_state: "snd (read_data w s) = s\<lparr>trace := trace s @ step_sample 8\<rparr>"
  by (simp add: read_data_fold read_fold_state)

lemma read_data_bit:
  "bit (fst (read_data w s)) i \<longleftrightarrow> i < 8 \<and> level w (trace s @ step_sample i) (bus_pins ! i)"
  by (simp add: read_data_fold read_fold_bit)

lemma read_data_value: "fst (read_data w s) = byte_on_lines w (trace s)"
  by (rule bit_eqI) (auto simp: read_data_bit byte_on_lines_def bit_horner_sum_bit_word_iff)

lemma read_data_eq: "read_data w s = (byte_on_lines w (trace s), s\<lparr>trace := trace s @ step_sample 8\<rparr>)"
  by (simp add: prod_eq_iff read_data_value read_data_state)

subsection \<open>What the loops over the bus lines leave behind\<close>

lemma fold_keeps: "(\<And>x s. P (f x s) = P s) \<Longrightarrow> P (fold f xs s) = P s"
  by (induction xs arbitrary: s) simp_all

lemma pin_dir_fold_pinMode:
  "pin_dir (fold (\<lambda>i. pinMode (f i) m) xs s) = (\<lambda>p. if p \<in> f ` set xs then m else pin_dir s p)"
  by (induction xs arbitrary: s) (auto simp: fun_eq_iff)

lemma pin_dir_fold_drive:
  "pin_dir (fold (\<lambda>i s. digitalWrite (f i) (g i) (pinMode (f i) m s)) xs s)
     = (\<lambda>p. if p \<in> f ` set xs then m else pin_dir s p)"
  by (induction xs arbitrary: s) (auto simp: fun_eq_iff)

lemma pin_out_fold_drive_other:
  "p \<notin> f ` set xs \<Longrightarrow>
   pin_out (fold (\<lambda>i s. digitalWrite (f i) (g i) (pinMode (f i) m s)) xs s) p = pin_out s p"
  by (induction xs arbitrary: s) auto

lemma pin_out_fold_drive_line:
  "distinct (map f xs) \<Longrightarrow> i \<in> set xs \<Longrightarrow>
   pin_out (fold (\<lambda>i s. digitalWrite (f i) (g i) (pinMode (f i) m s)) xs s) (f i) = g i"
  by (induction xs arbitrary: s) (auto simp: pin_out_fold_drive_other)

lemma bus_pins_image: "n \<le> 20 \<Longrightarrow> (!) bus_pins ` set [0..<n] = set (take n bus_pins)"
  by (simp add: nth_image flip: atLeastLessThan_upt)

lemma map_nth_bus_pins: "map ((!) bus_pins) [0..<20] = bus_pins"
  using map_nth [of bus_pins] by simp

lemma pin_dir_drive_address:
  "pin_dir (drive_address a s) = (\<lambda>p. if p \<in> set bus_pins then OUTPUT else pin_dir s p)"
  using bus_pins_image [of 20] by (simp add: drive_address_bits pin_dir_fold_drive)

lemma pin_out_drive_address_other:
  "p \<notin> set bus_pins \<Longrightarrow> pin_out (drive_address a s) p = pin_out s p"
  using bus_pins_image [of 20] by (simp add: drive_address_bits pin_out_fold_drive_other)

lemma pin_out_drive_address_line:
  "i < 20 \<Longrightarrow> pin_out (drive_address a s) (bus_pins ! i) = bit a i"
  unfolding drive_address_bits
  by (rule pin_out_fold_drive_line) (simp_all add: map_nth_bus_pins distinct_bus_pins)

lemma drive_address_mask: "drive_address (a AND 0xFFFFF) s = drive_address a s"
proof -
  have "\<And>i. i \<in> set [0..<20] \<Longrightarrow> bit (a AND 0xFFFFF) i = bit a i"
  proof -
    fix i :: nat assume "i \<in> set [0..<20]"
    then have "i < 20" by simp
    moreover have "(0xFFFFF :: 32 word) = mask 20" by (simp add: mask_eq_exp_minus_1)
    ultimately show "bit (a AND 0xFFFFF) i = bit a i"
      by (simp only: bit_and_iff bit_mask_iff) simp
  qed
  then show ?thesis
    unfolding drive_address_bits by (intro fold_cong) simp_all
qed

subsection \<open>One read cycle\<close>

lemma added_append [simp]: "trace s' = trace s @ es \<Longrightarrow> added s s' = es"
  by (simp add: added_def)

lemma trace_tristate_data_pins': "trace (tristate_data_pins s) = trace s @ step_float"
  by (simp add: trace_tristate_data_pins step_float_def)

lemma trace_drive_address': "trace (drive_address a s) = trace s @ step_drive a"
  by (simp add: trace_drive_address step_drive_def)

lemma fst_bus_read_cycle:
  "fst (bus_read_cycle w a s) =
     byte_on_lines w (trace s @ step_drive a @ step_strobe @ step_float @ step_enable @ step_settle)"
  by (simp add: bus_read_cycle_def Let_def read_data_eq trace_drive_address'
      trace_tristate_data_pins' step_strobe_def step_enable_def step_settle_def)

lemma trace_bus_read_cycle:
  "trace (snd (bus_read_cycle w a s)) =
     trace s @ step_drive a @ step_strobe @ step_float @ step_enable @ step_settle
       @ step_sample 8 @ step_disable"
  by (simp add: bus_read_cycle_def Let_def read_data_eq trace_drive_address'
      trace_tristate_data_pins' step_strobe_def step_enable_def step_settle_def step_disable_def)

lemma low_lines: "i < 8 \<Longrightarrow> bus_pins ! i \<in> {25, 24, 12, 11, 10, 9, 8, 7}"
proof -
  assume i: "i < 8"
  have "take 8 bus_pins ! i \<in> set (take 8 bus_pins)"
    by (rule nth_mem) (simp add: i)
  moreover have "take 8 bus_pins ! i = bus_pins ! i"
    using i by simp
  moreover have "set (take 8 bus_pins) = {25, 24, 12, 11, 10, 9, 8, 7}"
    by (simp add: bus_pins_def)
  ultimately show ?thesis by simp
qed

lemma simulated_level:
  "level (simulated_target b names) tr p =
     (if p = HLDAK then hold_requested tr
      else (case first_index p (take 8 bus_pins) of None \<Rightarrow> False | Some i \<Rightarrow> bit b i))"
  by (simp add: simulated_target_def)

subsection \<open>File names\<close>

lemma length_decimal: "n < 1000 \<Longrightarrow> length (decimal n) \<le> 3"
  by (simp add: decimal.simps [of n] decimal.simps [of "n div 10"] decimal.simps [of "n div 10 div 10"])

lemma length_fmt_03d: "n < 1000 \<Longrightarrow> length (fmt_03d n) = 3"
  using length_decimal [of n] by (simp add: fmt_03d_def)

lemma length_sprintf_CWMEM: "n < 1000 \<Longrightarrow> length (sprintf_CWMEM n) = 12"
  by (simp add: sprintf_CWMEM_def length_fmt_03d)

lemma sprintf_CWMEM_0: "sprintf_CWMEM 0 = ''CWMEM000.BIN''"
  by code_simp

lemma next_file_Returned:
  "file_number s < 999 \<Longrightarrow>
   next_file s = Returned (s\<lparr>file_number := file_number s + 1,
                               filename := sprintf_CWMEM (file_number s + 1)\<rparr>)"
  by (simp add: next_file_def Let_def)

lemma next_file_Halted:
  "999 \<le> file_number s \<Longrightarrow>
   next_file s = Halted TooManyFiles
     (Serial_println ''Too many files for our naming convention. Clean off the SD card!''
        (s\<lparr>file_number := file_number s + 1\<rparr>))"
  by (simp add: next_file_def Let_def)

lemma other_fields_log [simp]:
  "file_number (log e s) = file_number s"
  "filename (log e s) = filename s"
  "dumpfile (log e s) = dumpfile s"
  "serial_in (log e s) = serial_in s"
  by (simp_all add: log_def)

lemma other_fields_Serial [simp]:
  "file_number (Serial_print x s) = file_number s"
  "filename (Serial_print x s) = filename s"
  "dumpfile (Serial_print x s) = dumpfile s"
  "serial_in (Serial_print x s) = serial_in s"
  "pin_dir (Serial_print x s) = pin_dir s"
  "pin_out (Serial_print x s) = pin_out s"
  "file_number (Serial_println x s) = file_number s"
  "filename (Serial_println x s) = filename s"
  "dumpfile (Serial_println x s) = dumpfile s"
  "serial_in (Serial_println x s) = serial_in s"
  "pin_dir (Serial_println x s) = pin_dir s"
  "pin_out (Serial_println x s) = pin_out s"
  by (simp_all add: Serial_print_def Serial_println_def)

lemma skip_existing_from:
  "\<lbrakk>m \<le> n; n \<le> 999; file_number s = m; filename s = sprintf_CWMEM m;
    \<forall>k. m \<le> k \<and> k < n \<longrightarrow> sd_exists w (sprintf_CWMEM k);
    \<not> sd_exists w (sprintf_CWMEM n)\<rbrakk>
   \<Longrightarrow> skip_existing w s = Returned (s\<lparr>file_number := n, filename := sprintf_CWMEM n\<rparr>)"
proof (induction "n - m" arbitrary: m s)
  case 0
  then have "m = n" by simp
  with 0 show ?case
    by (subst skip_existing.simps) simp
next
  case (Suc d)
  then have lt: "m < n" by simp
  let ?s' = "s\<lparr>file_number := m + 1, filename := sprintf_CWMEM (m + 1)\<rparr>"
  have ex: "sd_exists w (filename s)"
    using Suc.prems lt by simp
  have nf: "next_file s = Returned ?s'"
    using next_file_Returned [of s] Suc.prems lt by simp
  have "skip_existing w ?s' = Returned (?s'\<lparr>file_number := n, filename := sprintf_CWMEM n\<rparr>)"
  proof (rule Suc.hyps(1))
    show "d = n - (m + 1)" using Suc.hyps(2) by simp
    show "m + 1 \<le> n" using lt by simp
    show "n \<le> 999" by (rule Suc.prems)
    show "file_number ?s' = m + 1" by simp
    show "filename ?s' = sprintf_CWMEM (m + 1)" by simp
    show "\<forall>k. m + 1 \<le> k \<and> k < n \<longrightarrow> sd_exists w (sprintf_CWMEM k)"
      using Suc.prems(5) by simp
    show "\<not> sd_exists w (sprintf_CWMEM n)" by (rule Suc.prems)
  qed
  then show ?case
    by (subst skip_existing.simps) (simp add: ex nf)
qed

lemma skip_existing_exhausted_from:
  "\<lbrakk>file_number s = m; m \<le> 999; filename s = sprintf_CWMEM m;
    \<forall>k. m \<le> k \<and> k \<le> 999 \<longrightarrow> sd_exists w (sprintf_CWMEM k)\<rbrakk>
   \<Longrightarrow> \<exists>h. skip_existing w s = Halted TooManyFiles h"
proof (induction "999 - m" arbitrary: m s)
  case 0
  then have "file_number s = 999" by simp
  with 0 show ?case
    by (subst skip_existing.simps) (simp add: next_file_Halted)
next
  case (Suc d)
  then have lt: "m < 999" by simp
  let ?s' = "s\<lparr>file_number := m + 1, filename := sprintf_CWMEM (m + 1)\<rparr>"
  have ex: "sd_exists w (filename s)"
    using Suc.prems by simp
  have nf: "next_file s = Returned ?s'"
    using next_file_Returned [of s] Suc.prems lt by simp
  have "\<exists>h. skip_existing w ?s' = Halted TooManyFiles h"
  proof (rule Suc.hyps(1))
    show "d = 999 - (m + 1)" using Suc.hyps(2) by simp
    show "file_number ?s' = m + 1" by simp
    show "m + 1 \<le> 999" using lt by simp
    show "filename ?s' = sprintf_CWMEM (m + 1)" by simp
    show "\<forall>k. m + 1 \<le> k \<and> k \<le> 999 \<longrightarrow> sd_exists w (sprintf_CWMEM k)"
      using Suc.prems(4) by simp
  qed
  then show ?case
    by (subst skip_existing.simps) (simp add: ex nf)
qed

lemma skip_existing_exhausted:
  "\<lbrakk>file_number s = 0; filename s = ''CWMEM000.BIN'';
    \<forall>k\<le>999. sd_exists w (sprintf_CWMEM k)\<rbrakk>
   \<Longrightarrow> \<exists>h. skip_existing w s = Halted TooManyFiles h"
  using skip_existing_exhausted_from [of s 0 w] by (simp add: sprintf_CWMEM_0)

lemma sd_exists_simulated: "sd_exists (simulated_target b names) name = (name \<in> set names)"
  by (simp add: simulated_target_def)

subsection \<open>The dump loop\<close>

lemma globals_prims [simp]:
  "globals (log e s) = globals s"
  "globals (pinMode p m s) = globals s"
  "globals (digitalWrite p v s) = globals s"
  "globals (delayMicroseconds n s) = globals s"
  "globals (Serial_print x s) = globals s"
  "globals (Serial_println x s) = globals s"
  "globals (s\<lparr>trace := tr\<rparr>) = globals s"
  by (simp_all add: globals_def log_def pinMode_def digitalWrite_def delayMicroseconds_def
      Serial_print_def Serial_println_def)

lemma globals_drive_address [simp]: "globals (drive_address a s) = globals s"
  unfolding drive_address_def by (rule fold_keeps) simp

lemma globals_tristate_data_pins [simp]: "globals (tristate_data_pins s) = globals s"
  unfolding tristate_data_pins_def by (rule fold_keeps) simp

lemma globals_bus_read_cycle [simp]: "globals (snd (bus_read_cycle w a s)) = globals s"
  by (simp add: bus_read_cycle_def Let_def read_data_eq)

lemma dumpfile_bus_read_cycle [simp]: "dumpfile (snd (bus_read_cycle w a s)) = dumpfile s"
  using globals_bus_read_cycle [of w a s] by (simp add: globals_def)

lemma dump_byte_eq:
  "dump_byte w a s = File_write w (fst (bus_read_cycle w a s)) (snd (bus_read_cycle w a s))"
  by (simp add: dump_byte_def split: prod.split)

lemma trace_File_write [simp]: "trace (File_write w b s) = trace s @ [FileWrite b]"
  by (simp add: File_write_def)

lemma trace_dump_byte:
  "trace (dump_byte w a s) =
     trace s @ step_drive a @ step_strobe @ step_float @ step_enable @ step_settle
       @ step_sample 8 @ step_disable @ [FileWrite (fst (bus_read_cycle w a s))]"
  by (simp add: dump_byte_eq trace_bus_read_cycle)

lemma dumpfile_dump_byte:
  "dumpfile (dump_byte w a s) =
     (if write_ok w (trace (snd (bus_read_cycle w a s)))
      then dumpfile s @ [fst (bus_read_cycle w a s)] else dumpfile s)"
  by (simp add: dump_byte_eq File_write_def)

lemma dump_loop_fold_from:
  "unat a \<le> 1048576 \<Longrightarrow>
   dump_loop w a s = fold (\<lambda>k. dump_byte w (word_of_nat k)) [unat a..<1048576] s"
proof (induction "1048576 - unat a" arbitrary: a s)
  case 0
  then have top: "unat a = 1048576" by simp
  then have "\<not> a \<le> 0xFFFFF"
    by (simp add: word_le_nat_alt)
  then show ?case
    by (subst dump_loop.simps) (simp add: top)
next
  case (Suc d)
  then have lt: "unat a < 1048576" by simp
  then have le: "a \<le> 0xFFFFF"
    by (simp add: word_le_nat_alt)
  have succ: "unat (a + 1) = unat a + 1"
    using lt by (simp add: unat_word_ariths)
  have "dump_loop w (a + 1) (dump_byte w a s)
      = fold (\<lambda>k. dump_byte w (word_of_nat k)) [unat (a + 1)..<1048576] (dump_byte w a s)"
    by (rule Suc.hyps(1)) (use Suc.hyps(2) succ lt in simp_all)
  moreover have "[unat a..<1048576] = unat a # [unat (a + 1)..<1048576]"
    using lt by (simp add: succ upt_conv_Cons)
  ultimately show ?case
    by (subst dump_loop.simps) (simp add: le)
qed

lemma dump_loop_fold:
  "dump_loop w 0 s = fold (\<lambda>k. dump_byte w (word_of_nat k)) [0..<1048576] s"
  using dump_loop_fold_from [of 0 w s] by simp

lemma dump_upto_0 [simp]: "dump_upto w 0 s = s"
  by (simp add: dump_upto_def)

lemma dump_upto_Suc: "dump_upto w (Suc n) s = dump_byte w (word_of_nat n) (dump_upto w n s)"
  by (simp add: dump_upto_def)

lemma dump_loop_upto: "dump_loop w 0 s = dump_upto w 1048576 s"
  by (simp add: dump_loop_fold dump_upto_def)

lemma trace_dump_upto: "trace (dump_upto w n s) = trace s @ added s (dump_upto w n s)"
proof (induction n)
  case 0
  show ?case by (simp add: added_def)
next
  case (Suc n)
  obtain es where "trace (dump_upto w (Suc n) s) = trace (dump_upto w n s) @ es"
    by (simp add: dump_upto_Suc trace_dump_byte)
  also have "trace (dump_upto w n s) = trace s @ added s (dump_upto w n s)"
    by (rule Suc)
  finally have "trace (dump_upto w (Suc n) s) = (trace s @ added s (dump_upto w n s)) @ es" .
  then show ?case
    by (simp add: added_def)
qed

lemma added_dump_upto_Suc:
  "added s (dump_upto w (Suc n) s) =
     added s (dump_upto w n s)
       @ step_drive (word_of_nat n) @ step_strobe @ step_float @ step_enable @ step_settle
       @ step_sample 8 @ step_disable
       @ [FileWrite (fst (bus_read_cycle w (word_of_nat n) (dump_upto w n s)))]"
proof -
  have "trace (dump_upto w (Suc n) s) = trace s @ added s (dump_upto w n s)
       @ step_drive (word_of_nat n) @ step_strobe @ step_float @ step_enable @ step_settle
       @ step_sample 8 @ step_disable
       @ [FileWrite (fst (bus_read_cycle w (word_of_nat n) (dump_upto w n s)))]"
    by (simp add: dump_upto_Suc trace_dump_byte flip: trace_dump_upto)
  then show ?thesis
    by (rule added_append)
qed

lemma forwarded_append [simp]: "forwarded (xs @ ys) = forwarded xs @ forwarded ys"
  by (simp add: forwarded_def)

lemma forwarded_cycle [simp]:
  "forwarded (step_drive a) = []" "forwarded step_strobe = []" "forwarded step_float = []"
  "forwarded step_enable = []" "forwarded step_settle = []" "forwarded (step_sample n) = []"
  "forwarded step_disable = []"
  by (simp_all add: forwarded_def step_drive_def step_strobe_def step_float_def step_enable_def
      step_settle_def step_sample_def step_disable_def)

lemma forwarded_dump_upto:
  "forwarded (added s (dump_upto w n s)) =
     map (\<lambda>k. fst (bus_read_cycle w (word_of_nat k) (dump_upto w k s))) [0..<n]"
proof (induction n)
  case 0
  show ?case by (simp add: added_def forwarded_def)
next
  case (Suc n)
  then show ?case
    by (simp add: added_dump_upto_Suc forwarded_def [of "[_]"])
qed

lemma dumpfile_dump_upto_ok:
  "\<forall>tr. write_ok w tr \<Longrightarrow>
   dumpfile (dump_upto w n s) = dumpfile s @ forwarded (added s (dump_upto w n s))"
proof (induction n)
  case 0
  show ?case by (simp add: added_def forwarded_def)
next
  case (Suc n)
  have "dumpfile (dump_upto w (Suc n) s) =
      dumpfile (dump_upto w n s) @ [fst (bus_read_cycle w (word_of_nat n) (dump_upto w n s))]"
    using Suc.prems by (simp add: dump_upto_Suc dumpfile_dump_byte)
  then show ?case
    using Suc by (simp add: added_dump_upto_Suc forwarded_def [of "[_]"])
qed


subsection \<open>What the address latch sees\<close>

lemma observe_quiet:
  "(\<And>v. DigitalWrite ASTB v \<notin> set es) \<Longrightarrow>
   strobe (fold observe es pr) = strobe pr \<and> latched (fold observe es pr) = latched pr"
proof (induction es arbitrary: pr)
  case Nil
  show ?case by simp
next
  case (Cons e es)
  have e: "strobe (observe e pr) = strobe pr \<and> latched (observe e pr) = latched pr"
    using Cons.prems by (cases e) auto
  have "strobe (fold observe es (observe e pr)) = strobe (observe e pr)
      \<and> latched (fold observe es (observe e pr)) = latched (observe e pr)"
    by (rule Cons.IH) (use Cons.prems in simp)
  with e show ?case by simp
qed

lemma lines_fold_drive_other:
  "\<lbrakk>ASTB \<notin> f ` set xs; p \<notin> f ` set xs\<rbrakk> \<Longrightarrow>
   lines (fold observe (concat (map (\<lambda>i. [PinMode (f i) m, DigitalWrite (f i) (g i)]) xs)) pr) p
     = lines pr p"
  by (induction xs arbitrary: pr) auto

lemma lines_fold_drive_line:
  "\<lbrakk>ASTB \<notin> f ` set xs; distinct (map f xs); i \<in> set xs\<rbrakk> \<Longrightarrow>
   lines (fold observe (concat (map (\<lambda>i. [PinMode (f i) m, DigitalWrite (f i) (g i)]) xs)) pr) (f i)
     = g i"
  by (induction xs arbitrary: pr) (auto simp: lines_fold_drive_other)

lemma ASTB_not_bus: "ASTB \<notin> set bus_pins"
  by (simp add: ASTB_def bus_pins_def)

lemma lines_step_drive:
  "map (lines (fold observe (step_drive a) pr)) bus_pins = map (bit a) [0..<20]"
proof -
  have "map (lines (fold observe (step_drive a) pr)) (map ((!) bus_pins) [0..<20])
      = map (bit a) [0..<20]"
    unfolding map_map step_drive_def
  proof (rule map_cong [OF refl], unfold o_def)
    fix i
    assume "i \<in> set [0..<20]"
    then show "lines (fold observe (concat (map (\<lambda>i. [PinMode (bus_pins ! i) OUTPUT,
        DigitalWrite (bus_pins ! i) (bit a i)]) [0..<20])) pr) (bus_pins ! i) = bit a i"
      using bus_pins_image [of 20] ASTB_not_bus
      by (intro lines_fold_drive_line) (simp_all add: map_nth_bus_pins distinct_bus_pins)
  qed
  then show ?thesis
    by (simp only: map_nth_bus_pins)
qed

lemma quiet_step_drive: "DigitalWrite ASTB v \<notin> set (step_drive a)"
  using ASTB_not_bus bus_pins_image [of 20] by (auto simp: step_drive_def)

lemma quiet_rest:
  "DigitalWrite ASTB v \<notin> set (step_float @ step_enable @ step_settle @ step_sample 8
      @ step_disable @ [FileWrite b])"
  by (auto simp: step_float_def step_enable_def step_settle_def step_sample_def step_disable_def
      pin_defs)

lemma address_on_lines:
  "horner_sum of_bool (2 :: nat) (map (bit (a :: 32 word)) [0..<20]) = unat a mod 1048576"
proof -
  have "map (bit a) [0..<20] = map (bit (unat a)) [0..<20]"
    by (rule map_cong [OF refl]) (simp add: bit_unsigned_iff)
  then have "horner_sum of_bool (2 :: nat) (map (bit a) [0..<20]) = unat a mod 2 ^ 20"
    by (simp only: horner_sum_bit_eq_take_bit take_bit_eq_mod)
  then show ?thesis
    by simp
qed

lemma latched_cycle:
  "latched (fold observe (step_drive a @ step_strobe @ step_float @ step_enable @ step_settle
       @ step_sample 8 @ step_disable @ [FileWrite b]) pr)
     = latched pr @ [unat a mod 1048576]"
proof -
  let ?p1 = "fold observe (step_drive a) pr"
  let ?p2 = "fold observe step_strobe ?p1"
  have p1: "latched ?p1 = latched pr"
    using observe_quiet [of "step_drive a" pr] quiet_step_drive by simp
  have "latched ?p2 = latched ?p1 @ [horner_sum of_bool 2 (map (lines ?p1) bus_pins)]"
    by (simp add: step_strobe_def)
  then have p2: "latched ?p2 = latched pr @ [unat a mod 1048576]"
    by (simp only: p1 lines_step_drive address_on_lines)
  have "latched (fold observe (step_float @ step_enable @ step_settle @ step_sample 8
      @ step_disable @ [FileWrite b]) ?p2) = latched ?p2"
    using observe_quiet [of _ ?p2] quiet_rest by blast
  then show ?thesis
    by (simp add: p2)
qed

lemma latched_dump_upto:
  "latched (fold observe (added s (dump_upto w n s)) pr)
     = latched pr @ map (\<lambda>k. unat (word_of_nat k :: 32 word) mod 1048576) [0..<n]"
proof (induction n)
  case 0
  show ?case by (simp add: added_def)
next
  case (Suc n)
  have "latched (fold observe (added s (dump_upto w (Suc n) s)) pr)
      = latched (fold observe (added s (dump_upto w n s)) pr)
          @ [unat (word_of_nat n :: 32 word) mod 1048576]"
    by (simp only: added_dump_upto_Suc fold_append [of _ "added s (dump_upto w n s)"]
        o_apply latched_cycle)
  then show ?case
    by (simp add: Suc)
qed

lemma low_addresses:
  "n \<le> 1048576 \<Longrightarrow> map (\<lambda>k. unat (word_of_nat k :: 32 word) mod 1048576) [0..<n] = [0..<n]"
proof -
  assume n: "n \<le> 1048576"
  have "map (\<lambda>k. unat (word_of_nat k :: 32 word) mod 1048576) [0..<n] = map (\<lambda>k. k) [0..<n]"
  proof (rule map_cong [OF refl])
    fix k assume "k \<in> set [0..<n]"
    with n have k: "k < 1048576" by simp
    then have "unat (word_of_nat k :: 32 word) = k"
      by (simp add: unat_of_nat)
    with k show "unat (word_of_nat k :: 32 word) mod 1048576 = k" by simp
  qed
  then show ?thesis by (simp only: map_ident id_apply)
qed

lemma latched_addresses_dump_upto:
  "n \<le> 1048576 \<Longrightarrow> latched_addresses (added s (dump_upto w n s)) = [0..<n]"
  by (simp add: latched_addresses_def latched_dump_upto low_addresses)

subsection \<open>The simulated target\<close>




lemma write_ok_simulated [simp]: "write_ok (simulated_target b names) tr"
  by (simp add: simulated_target_def)


subsection \<open>Polling the acknowledge line\<close>

lemma polls_Suc: "polls (Suc n) = DigitalRead HLDAK # polls n"
  by (simp add: polls_def)

lemma polled_until_0: "polled_until w v tr 0 \<longleftrightarrow> level w tr HLDAK = v"
  by (simp add: polled_until_def polls_def)

lemma polled_until_iff:
  "polled_until w v tr n \<longleftrightarrow>
     level w (tr @ polls n) HLDAK = v \<and> (\<forall>i<n. level w (tr @ polls i) HLDAK \<noteq> v)"
  by (auto simp: polled_until_def list_all_iff)

lemma polled_until_Suc:
  "polled_until w v tr (Suc n) \<longleftrightarrow>
     level w tr HLDAK \<noteq> v \<and> polled_until w v (tr @ [DigitalRead HLDAK]) n"
  by (auto simp: polled_until_iff All_less_Suc2 polls_def)

lemma await_ack_now:
  "level w (trace s) HLDAK = BUS_ACK \<Longrightarrow> await_ack w s = Some (log (DigitalRead HLDAK) s)"
  by (subst await_ack.simps) (simp add: digitalRead_def)

lemma await_nak_now:
  "level w (trace s) HLDAK = BUS_NAK \<Longrightarrow> await_nak w s = Some (log (DigitalRead HLDAK) s)"
  by (subst await_nak.simps) (simp add: digitalRead_def)

lemma await_ack_Some:
  assumes "await_ack w0 s0 = Some r0"
  shows "\<exists>n. r0 = s0\<lparr>trace := trace s0 @ polls (Suc n)\<rparr>
    \<and> polled_until w0 BUS_ACK (trace s0) n"
proof (rule await_ack.raw_induct [where P = "\<lambda>w s s'.
    \<exists>n. s' = s\<lparr>trace := trace s @ polls (Suc n)\<rparr> \<and> polled_until w BUS_ACK (trace s) n",
    OF _ assms])
  fix f :: "world \<Rightarrow> machine \<Rightarrow> machine option" and w s s'
  assume IH: "\<And>w s y. f w s = Some y \<Longrightarrow>
      \<exists>n. y = s\<lparr>trace := trace s @ polls (Suc n)\<rparr> \<and> polled_until w BUS_ACK (trace s) n"
    and step: "(case digitalRead w HLDAK s of
        (v, s1) \<Rightarrow> if v \<noteq> BUS_ACK then f w s1 else Some s1) = Some s'"
  show "\<exists>n. s' = s\<lparr>trace := trace s @ polls (Suc n)\<rparr> \<and> polled_until w BUS_ACK (trace s) n"
  proof (cases "level w (trace s) HLDAK")
    case True
    with step have now: "s' = s\<lparr>trace := trace s @ polls (Suc 0)\<rparr>"
      by (simp add: digitalRead_def log_def polls_def)
    show ?thesis
    proof (intro exI [of _ "0 :: nat"] conjI)
      show "s' = s\<lparr>trace := trace s @ polls (Suc 0)\<rparr>"
        by (rule now)
      show "polled_until w BUS_ACK (trace s) 0"
        using True by (simp add: polled_until_0)
    qed
  next
    case False
    with step have "f w (log (DigitalRead HLDAK) s) = Some s'"
      by (simp add: digitalRead_def)
    from IH [OF this] obtain n where
      n: "s' = (log (DigitalRead HLDAK) s)\<lparr>trace := trace (log (DigitalRead HLDAK) s) @ polls (Suc n)\<rparr>"
         "polled_until w BUS_ACK (trace (log (DigitalRead HLDAK) s)) n"
      by (elim exE conjE)
    from n(1) have later: "s' = s\<lparr>trace := trace s @ polls (Suc (Suc n))\<rparr>"
      by (simp add: log_def polls_Suc)
    from n(2) False have first: "polled_until w BUS_ACK (trace s) (Suc n)"
      by (simp add: polled_until_Suc)
    show ?thesis
      by (intro exI [of _ "Suc n"] conjI) (rule later, rule first)
  qed
qed

lemma await_nak_Some:
  assumes "await_nak w0 s0 = Some r0"
  shows "\<exists>n. r0 = s0\<lparr>trace := trace s0 @ polls (Suc n)\<rparr>
    \<and> polled_until w0 BUS_NAK (trace s0) n"
proof (rule await_nak.raw_induct [where P = "\<lambda>w s s'.
    \<exists>n. s' = s\<lparr>trace := trace s @ polls (Suc n)\<rparr> \<and> polled_until w BUS_NAK (trace s) n",
    OF _ assms])
  fix f :: "world \<Rightarrow> machine \<Rightarrow> machine option" and w s s'
  assume IH: "\<And>w s y. f w s = Some y \<Longrightarrow>
      \<exists>n. y = s\<lparr>trace := trace s @ polls (Suc n)\<rparr> \<and> polled_until w BUS_NAK (trace s) n"
    and step: "(case digitalRead w HLDAK s of
        (v, s1) \<Rightarrow> if v = BUS_ACK then f w s1 else Some s1) = Some s'"
  show "\<exists>n. s' = s\<lparr>trace := trace s @ polls (Suc n)\<rparr> \<and> polled_until w BUS_NAK (trace s) n"
  proof (cases "level w (trace s) HLDAK")
    case False
    with step have now: "s' = s\<lparr>trace := trace s @ polls (Suc 0)\<rparr>"
      by (simp add: digitalRead_def log_def polls_def)
    show ?thesis
    proof (intro exI [of _ "0 :: nat"] conjI)
      show "s' = s\<lparr>trace := trace s @ polls (Suc 0)\<rparr>"
        by (rule now)
      show "polled_until w BUS_NAK (trace s) 0"
        using False by (simp add: polled_until_0)
    qed
  next
    case True
    with step have "f w (log (DigitalRead HLDAK) s) = Some s'"
      by (simp add: digitalRead_def)
    from IH [OF this] obtain n where
      n: "s' = (log (DigitalRead HLDAK) s)\<lparr>trace := trace (log (DigitalRead HLDAK) s) @ polls (Suc n)\<rparr>"
         "polled_until w BUS_NAK (trace (log (DigitalRead HLDAK) s)) n"
      by (elim exE conjE)
    from n(1) have later: "s' = s\<lparr>trace := trace s @ polls (Suc (Suc n))\<rparr>"
      by (simp add: log_def polls_Suc)
    from n(2) True have first: "polled_until w BUS_NAK (trace s) (Suc n)"
      by (simp add: polled_until_Suc)
    show ?thesis
      by (intro exI [of _ "Suc n"] conjI) (rule later, rule first)
  qed
qed

lemma loop_seize_Some:
  "loop_seize w s = Some s' \<Longrightarrow>
   \<exists>n. s' = s\<lparr>pin_out := (pin_out s)(HLDRQ := BUS_HOLD),
                trace := trace s @ [SerialPrint ''Seizing the bus ... '', DigitalWrite HLDRQ BUS_HOLD]
                           @ polls (Suc n) @ [SerialPrint (''ok'' @ [CHR 0x0D, CHR 0x0A])]\<rparr>
      \<and> polled_until w BUS_ACK
           (trace s @ [SerialPrint ''Seizing the bus ... '', DigitalWrite HLDRQ BUS_HOLD]) n"
proof -
  let ?s2 = "digitalWrite HLDRQ BUS_HOLD (Serial_print ''Seizing the bus ... '' s)"
  assume "loop_seize w s = Some s'"
  then obtain s3 where s3: "await_ack w ?s2 = Some s3" and s': "s' = Serial_println ''ok'' s3"
    by (auto simp: loop_seize_def Let_def split: option.splits)
  from await_ack_Some [OF s3] obtain n where
    n: "s3 = ?s2\<lparr>trace := trace ?s2 @ polls (Suc n)\<rparr>" "polled_until w BUS_ACK (trace ?s2) n"
    by blast
  from n(1) s' have "s' = s\<lparr>pin_out := (pin_out s)(HLDRQ := BUS_HOLD),
      trace := trace s @ [SerialPrint ''Seizing the bus ... '', DigitalWrite HLDRQ BUS_HOLD]
                 @ polls (Suc n) @ [SerialPrint (''ok'' @ [CHR 0x0D, CHR 0x0A])]\<rparr>"
    by (simp add: Serial_println_def Serial_print_def digitalWrite_def log_def)
  moreover from n(2) have "polled_until w BUS_ACK
      (trace s @ [SerialPrint ''Seizing the bus ... '', DigitalWrite HLDRQ BUS_HOLD]) n"
    by simp
  ultimately show ?thesis by blast
qed

lemma loop_release_Some:
  "loop_release w s = Some s' \<Longrightarrow>
   \<exists>n. s' = s\<lparr>pin_out := (pin_out s)(HLDRQ := BUS_RELEASE),
                trace := trace s @ [SerialPrint ''Releasing the bus ... '', DigitalWrite HLDRQ BUS_RELEASE]
                           @ polls (Suc n) @ [SerialPrint (''ok'' @ [CHR 0x0D, CHR 0x0A])]\<rparr>
      \<and> polled_until w BUS_NAK
           (trace s @ [SerialPrint ''Releasing the bus ... '', DigitalWrite HLDRQ BUS_RELEASE]) n"
proof -
  let ?s2 = "digitalWrite HLDRQ BUS_RELEASE (Serial_print ''Releasing the bus ... '' s)"
  assume "loop_release w s = Some s'"
  then obtain s3 where s3: "await_nak w ?s2 = Some s3" and s': "s' = Serial_println ''ok'' s3"
    by (auto simp: loop_release_def Let_def split: option.splits)
  from await_nak_Some [OF s3] obtain n where
    n: "s3 = ?s2\<lparr>trace := trace ?s2 @ polls (Suc n)\<rparr>" "polled_until w BUS_NAK (trace ?s2) n"
    by blast
  from n(1) s' have "s' = s\<lparr>pin_out := (pin_out s)(HLDRQ := BUS_RELEASE),
      trace := trace s @ [SerialPrint ''Releasing the bus ... '', DigitalWrite HLDRQ BUS_RELEASE]
                 @ polls (Suc n) @ [SerialPrint (''ok'' @ [CHR 0x0D, CHR 0x0A])]\<rparr>"
    by (simp add: Serial_println_def Serial_print_def digitalWrite_def log_def)
  moreover from n(2) have "polled_until w BUS_NAK
      (trace s @ [SerialPrint ''Releasing the bus ... '', DigitalWrite HLDRQ BUS_RELEASE]) n"
    by simp
  ultimately show ?thesis by blast
qed

lemma hold_not_in_cycle:
  "DigitalWrite HLDRQ v \<notin> set (step_drive a @ step_strobe @ step_float @ step_enable
      @ step_settle @ step_sample 8 @ step_disable @ [FileWrite b])"
proof -
  have "HLDRQ \<notin> set bus_pins"
    by (simp add: HLDRQ_def bus_pins_def)
  then have "DigitalWrite HLDRQ v \<notin> set (step_drive a)"
    using bus_pins_image [of 20] by (auto simp: step_drive_def)
  then show ?thesis
    by (auto simp: step_strobe_def step_float_def step_enable_def step_settle_def
        step_sample_def step_disable_def pin_defs)
qed

lemma hold_not_in_dump: "DigitalWrite HLDRQ v \<notin> set (added s (dump_upto w n s))"
proof (induction n)
  case 0
  show ?case by (simp add: added_def)
next
  case (Suc n)
  have "set (added s (dump_upto w (Suc n) s)) = set (added s (dump_upto w n s))
      \<union> set (step_drive (word_of_nat n) @ step_strobe @ step_float @ step_enable
      @ step_settle @ step_sample 8 @ step_disable
      @ [FileWrite (fst (bus_read_cycle w (word_of_nat n) (dump_upto w n s)))])"
    by (simp only: added_dump_upto_Suc set_append)
  with Suc hold_not_in_cycle show ?case
    by blast
qed

lemma trace_bus_state_driven_idle:
  "trace (bus_state_driven_idle s) = trace s @
     [DigitalWrite BUFEN HIGH, PinMode BUFEN OUTPUT, DigitalWrite BUFRW LOW, PinMode BUFRW OUTPUT,
      DigitalWrite ASTB LOW, PinMode ASTB OUTPUT, DigitalWrite RD HIGH, PinMode RD OUTPUT,
      DigitalWrite WR HIGH, PinMode WR OUTPUT, DigitalWrite IOMEM LOW, PinMode IOMEM OUTPUT]"
  by (simp add: bus_state_driven_idle_def Let_def)

lemma trace_File_close [simp]: "trace (snd (File_close w s)) = trace s @ [FileClose]"
  by (simp add: File_close_def)

lemma loop_capture_halts_on_open: "loop_capture w s = Halted f h \<Longrightarrow> f = OpenFailed"
  by (auto simp: loop_capture_def Let_def split: if_splits prod.splits)

lemma trace_loop_capture:
  "\<exists>es. trace (state_of (loop_capture w s)) = trace s @ es \<and> (\<forall>v. DigitalWrite HLDRQ v \<notin> set es)"
proof (cases "open_ok w (trace (bus_state_driven_idle s))")
  case False
  then show ?thesis
    by (simp add: loop_capture_def Let_def trace_bus_state_driven_idle pin_defs)
next
  case True
  let ?s3 = "Serial_println ''Dumping ...''
      ((log (SdOpen (filename (bus_state_driven_idle s))) (bus_state_driven_idle s))
         \<lparr>dumpfile := file_at_open w (trace (bus_state_driven_idle s))
            (filename (bus_state_driven_idle s))\<rparr>)"
  let ?s4 = "dump_loop w 0 ?s3"
  have "\<exists>tail. trace (state_of (loop_capture w s)) = trace ?s4 @ FileClose # tail
      \<and> (\<forall>v. DigitalWrite HLDRQ v \<notin> set tail)"
    using True
    by (cases "close_ok w (trace ?s4)") (simp_all add: loop_capture_def Let_def File_close_def)
  then obtain tail where t1: "trace (state_of (loop_capture w s)) = trace ?s4 @ FileClose # tail"
    and tail: "\<forall>v. DigitalWrite HLDRQ v \<notin> set tail"
    by blast
  note t1
  also have "trace ?s4 = trace ?s3 @ added ?s3 (dump_upto w 1048576 ?s3)"
    by (simp only: dump_loop_upto trace_dump_upto [symmetric])
  also have "trace ?s3 = trace s @
     [DigitalWrite BUFEN HIGH, PinMode BUFEN OUTPUT, DigitalWrite BUFRW LOW, PinMode BUFRW OUTPUT,
      DigitalWrite ASTB LOW, PinMode ASTB OUTPUT, DigitalWrite RD HIGH, PinMode RD OUTPUT,
      DigitalWrite WR HIGH, PinMode WR OUTPUT, DigitalWrite IOMEM LOW, PinMode IOMEM OUTPUT,
      SdOpen (filename (bus_state_driven_idle s)),
      SerialPrint (''Dumping ...'' @ [CHR 0x0D, CHR 0x0A])]"
    by (simp add: trace_bus_state_driven_idle)
  finally show ?thesis
    using tail hold_not_in_dump [of _ ?s3 w 1048576] by (auto simp: pin_defs)
qed
subsection \<open>The parts of the main loop\<close>

lemma other_fields_pins [simp]:
  "file_number (pinMode p m s) = file_number s"
  "filename (pinMode p m s) = filename s"
  "dumpfile (pinMode p m s) = dumpfile s"
  "serial_in (pinMode p m s) = serial_in s"
  "file_number (digitalWrite p v s) = file_number s"
  "filename (digitalWrite p v s) = filename s"
  "dumpfile (digitalWrite p v s) = dumpfile s"
  "serial_in (digitalWrite p v s) = serial_in s"
  by (simp_all add: pinMode_def digitalWrite_def)

lemma writes_hold_iff: "list_ex writes_hold es \<longleftrightarrow> (\<exists>v. DigitalWrite HLDRQ v \<in> set es)"
proof (induction es)
  case Nil
  show ?case by simp
next
  case (Cons e es)
  then show ?case by (cases e) auto
qed

lemma trace_next_file:
  "\<exists>es. trace (state_of (next_file s)) = trace s @ es \<and> \<not> list_ex touches_bus es
     \<and> \<not> list_ex writes_hold es"
  by (simp add: next_file_def Let_def)

lemma next_file_not_open: "next_file s \<noteq> Halted OpenFailed h"
  by (simp add: next_file_def Let_def)

subsection \<open>Pin directions after a dump\<close>

lemma pin_dir_tristate_data_pins:
  "pin_dir (tristate_data_pins s) = (\<lambda>p. if p \<in> set (take 8 bus_pins) then INPUT else pin_dir s p)"
  using bus_pins_image [of 8]
  by (simp add: tristate_data_pins_def DATA_BUS_WIDTH_def pin_dir_fold_pinMode)

lemma pin_dir_bus_read_cycle:
  "pin_dir (snd (bus_read_cycle w a s)) = after_dump (pin_dir s)"
  by (simp add: bus_read_cycle_def Let_def read_data_eq pin_dir_tristate_data_pins
      pin_dir_drive_address after_dump_def fun_eq_iff)

lemma pin_dir_File_write [simp]: "pin_dir (File_write w b s) = pin_dir s"
  by (simp add: File_write_def)

lemma pin_dir_dump_byte: "pin_dir (dump_byte w a s) = after_dump (pin_dir s)"
  by (simp add: dump_byte_eq pin_dir_bus_read_cycle)

lemma after_dump_idem: "after_dump (after_dump d) = after_dump d"
  by (simp add: after_dump_def fun_eq_iff)

lemma pin_dir_dump_upto: "pin_dir (dump_upto w (Suc n) s) = after_dump (pin_dir s)"
  by (induction n) (simp_all add: dump_upto_Suc pin_dir_dump_byte after_dump_idem)

lemma pin_dir_dump_loop: "pin_dir (dump_loop w 0 s) = after_dump (pin_dir s)"
proof -
  have "(1048576 :: nat) = Suc 1048575" by simp
  then show ?thesis
    by (simp only: dump_loop_upto pin_dir_dump_upto)
qed

lemma names_dump_byte [simp]:
  "file_number (dump_byte w a s) = file_number s" "filename (dump_byte w a s) = filename s"
  using globals_bus_read_cycle [of w a s]
  by (simp_all add: dump_byte_eq File_write_def globals_def)

lemma names_dump_upto [simp]:
  "file_number (dump_upto w n s) = file_number s" "filename (dump_upto w n s) = filename s"
  by (induction n) (simp_all add: dump_upto_Suc)

lemma pin_dir_bus_state_driven_idle:
  "pin_dir (bus_state_driven_idle s) =
     (pin_dir s)(BUFEN := OUTPUT, BUFRW := OUTPUT, ASTB := OUTPUT, RD := OUTPUT, WR := OUTPUT,
        IOMEM := OUTPUT)"
  by (simp add: bus_state_driven_idle_def Let_def)

lemma names_bus_state_driven_idle [simp]:
  "file_number (bus_state_driven_idle s) = file_number s"
  "filename (bus_state_driven_idle s) = filename s"
  by (simp_all add: bus_state_driven_idle_def Let_def)

lemma pin_out_tristate_data_pins [simp]: "pin_out (tristate_data_pins s) = pin_out s"
  unfolding tristate_data_pins_def by (rule fold_keeps) simp

lemma HLDRQ_not_bus: "HLDRQ \<notin> set bus_pins"
  by (simp add: HLDRQ_def bus_pins_def)

lemma hold_bus_read_cycle: "pin_out (snd (bus_read_cycle w a s)) HLDRQ = pin_out s HLDRQ"
  using HLDRQ_not_bus
  by (simp add: bus_read_cycle_def Let_def read_data_eq pin_out_drive_address_other pin_defs)

lemma hold_dump_byte: "pin_out (dump_byte w a s) HLDRQ = pin_out s HLDRQ"
  by (simp add: dump_byte_eq File_write_def hold_bus_read_cycle)

lemma hold_dump_upto: "pin_out (dump_upto w n s) HLDRQ = pin_out s HLDRQ"
  by (induction n) (simp_all add: dump_upto_Suc hold_dump_byte)

lemma hold_bus_state_driven_idle:
  "pin_out (bus_state_driven_idle s) HLDRQ = pin_out s HLDRQ"
  by (simp add: bus_state_driven_idle_def Let_def pin_defs)

lemma loop_capture_Returned:
  "loop_capture w s = Returned s' \<Longrightarrow>
   pin_dir s' = after_dump ((pin_dir s)(BUFEN := OUTPUT, BUFRW := OUTPUT, ASTB := OUTPUT,
       RD := OUTPUT, WR := OUTPUT, IOMEM := OUTPUT))
   \<and> pin_out s' HLDRQ = pin_out s HLDRQ
   \<and> file_number s' = file_number s \<and> filename s' = filename s"
proof -
  let ?s3 = "Serial_println ''Dumping ...''
      ((log (SdOpen (filename (bus_state_driven_idle s))) (bus_state_driven_idle s))
         \<lparr>dumpfile := file_at_open w (trace (bus_state_driven_idle s))
            (filename (bus_state_driven_idle s))\<rparr>)"
  let ?s5 = "log FileClose (dump_loop w 0 ?s3)"
  assume "loop_capture w s = Returned s'"
  then have "s' = ?s5 \<or> s' = Serial_println (filename ?s5) (Serial_print ''Failed to close '' ?s5)"
    by (auto simp: loop_capture_def Let_def File_close_def split: if_splits)
  then have "pin_dir s' = pin_dir (dump_loop w 0 ?s3)"
    and "pin_out s' HLDRQ = pin_out (dump_upto w 1048576 ?s3) HLDRQ"
    and "file_number s' = file_number (dump_upto w 1048576 ?s3)"
    and "filename s' = filename (dump_upto w 1048576 ?s3)"
    by (auto simp: dump_loop_upto)
  then show ?thesis
    by (simp add: pin_dir_dump_loop hold_dump_upto pin_dir_bus_state_driven_idle
        hold_bus_state_driven_idle)
qed

lemma loop_seize_frame:
  "loop_seize w s = Some s' \<Longrightarrow>
   pin_dir s' = pin_dir s \<and> file_number s' = file_number s \<and> filename s' = filename s"
  using loop_seize_Some [of w s s'] by auto

lemma loop_release_frame:
  "loop_release w s = Some s' \<Longrightarrow>
   pin_dir s' = pin_dir s \<and> pin_out s' HLDRQ = BUS_RELEASE
   \<and> file_number s' = file_number s \<and> filename s' = filename s"
  using loop_release_Some [of w s s'] by auto

subsection \<open>A whole pass on the simulated target\<close>

lemma hold_requested_snoc [simp]:
  "hold_requested (tr @ [DigitalWrite HLDRQ v]) = v"
  "hold_requested (tr @ [SerialPrint x]) = hold_requested tr"
  by (simp_all add: hold_requested_def)

lemma level_simulated_HLDAK [simp]:
  "level (simulated_target b names) tr HLDAK = hold_requested tr"
  by (simp add: simulated_level)

lemma card_simulated [simp]:
  "open_ok (simulated_target b names) tr" "close_ok (simulated_target b names) tr"
  by (simp_all add: simulated_target_def)

lemma loop_seize_simulated: "\<exists>s'. loop_seize (simulated_target b names) s = Some s'"
  by (simp add: loop_seize_def Let_def await_ack_now)

lemma loop_release_simulated: "\<exists>s'. loop_release (simulated_target b names) s = Some s'"
  by (simp add: loop_release_def Let_def await_nak_now)

lemma loop_capture_simulated: "\<exists>s'. loop_capture (simulated_target b names) s = Returned s'"
  by (simp add: loop_capture_def Let_def File_close_def)

lemma loop_simulated:
  assumes keys: "read_until_newline (serial_in s) = Some keys" and n: "file_number s < 999"
  shows "\<exists>r. loop (simulated_target b names) s = Some (Returned r)
     \<and> pin_dir r = after_dump ((pin_dir s)(BUFEN := OUTPUT, BUFRW := OUTPUT, ASTB := OUTPUT,
           RD := OUTPUT, WR := OUTPUT, IOMEM := OUTPUT))
     \<and> pin_out r HLDRQ = BUS_RELEASE"
proof -
  let ?w = "simulated_target b names"
  let ?s1 = "(Serial_println ([CHR 0x0A, CHR 0x0A]
      @ ''Hit Enter to dump the entire address space to a file.'') s)\<lparr>serial_in := keys\<rparr>"
  obtain s2 where s2: "loop_seize ?w ?s1 = Some s2"
    using loop_seize_simulated by blast
  obtain s3 where s3: "loop_capture ?w (digitalWrite LED_BUILTIN HIGH s2) = Returned s3"
    using loop_capture_simulated by blast
  obtain s4 where s4: "loop_release ?w s3 = Some s4"
    using loop_release_simulated by blast
  let ?s7 = "Serial_println (filename s4)
      (Serial_print ''Memory dumped to file '' (digitalWrite LED_BUILTIN LOW s4))"
  note f2 = loop_seize_frame [OF s2] and f3 = loop_capture_Returned [OF s3]
    and f4 = loop_release_frame [OF s4]
  have run: "loop ?w s = Some (next_file ?s7)"
    using keys s2 s3 s4 by (simp add: loop_def Let_def)
  have "file_number ?s7 < 999"
    using n f2 f3 f4 by simp
  then have nf: "next_file ?s7 = Returned (?s7\<lparr>file_number := file_number ?s7 + 1,
      filename := sprintf_CWMEM (file_number ?s7 + 1)\<rparr>)"
    by (rule next_file_Returned)
  let ?r = "?s7\<lparr>file_number := file_number ?s7 + 1,
      filename := sprintf_CWMEM (file_number ?s7 + 1)\<rparr>"
  have "loop ?w s = Some (Returned ?r)"
    by (simp only: run nf)
  moreover have "pin_dir ?r = pin_dir s4" "pin_out ?r HLDRQ = pin_out s4 HLDRQ"
    by (simp_all add: pin_defs)
  ultimately show ?thesis
    using f2 f3 f4 by auto
qed

subsection \<open>The contents of the file\<close>










section \<open>The read cycle (C1, C3)\<close>

text \<open>
  C1. For every address \<open>a\<close> (a fortiori for those in [0, 0xFFFFF]), \<^verbatim>\<open>bus_read_cycle\<close>
  adds to the log exactly the seven steps in this order: the address is driven onto the
  twenty lines, the strobe is written high and then low, the low eight lines are set to
  inputs, read-enable and buffer-enable are written low, one microsecond passes, the low
  eight lines are read, and the two enables are written high again. The value returned is
  the byte made of the eight levels read. The function is total: it has no outcome but
  this one, so there is no error it could raise.
\<close>

theorem bus_read_cycle_order:
  "added s (snd (bus_read_cycle w a s)) =
     step_drive a @ step_strobe @ step_float @ step_enable @ step_settle
       @ step_sample 8 @ step_disable
   \<and> trace (snd (bus_read_cycle w a s)) = trace s @ added s (snd (bus_read_cycle w a s))
   \<and> fst (bus_read_cycle w a s) =
       byte_on_lines w (trace s @ step_drive a @ step_strobe @ step_float @ step_enable @ step_settle)"
  by (simp add: trace_bus_read_cycle fst_bus_read_cycle)

text \<open>
  C3, as amended. In every read cycle it is the read-enable window that brackets the
  buffer-enable window: \<^verbatim>\<open>RD\<close> goes low before \<^verbatim>\<open>BUFEN\<close> goes low, and
  \<^verbatim>\<open>BUFEN\<close> goes high again before \<^verbatim>\<open>RD\<close> does.
\<close>

theorem rd_brackets_bufen:
  "happens_before (DigitalWrite RD LOW) (DigitalWrite BUFEN LOW) (added s (snd (bus_read_cycle w a s)))
   \<and> happens_before (DigitalWrite BUFEN LOW) (DigitalWrite BUFEN HIGH) (added s (snd (bus_read_cycle w a s)))
   \<and> happens_before (DigitalWrite BUFEN HIGH) (DigitalWrite RD HIGH) (added s (snd (bus_read_cycle w a s)))"
  by (simp add: trace_bus_read_cycle happens_before_def step_drive_def step_strobe_def step_float_def step_enable_def step_settle_def step_sample_def step_disable_def upt_rec bus_pins_def pin_defs)

text \<open>
  C3 as stated (buffer-enable asserted before read-enable and deasserted after it) fails
  on the read cycle of address 0.
\<close>

theorem bufen_does_not_bracket_rd:
  "\<not> (happens_before (DigitalWrite BUFEN LOW) (DigitalWrite RD LOW)
          (added (power_on []) (snd (bus_read_cycle (simulated_target 0xAA []) 0 (power_on []))))
        \<and> happens_before (DigitalWrite RD HIGH) (DigitalWrite BUFEN HIGH)
          (added (power_on []) (snd (bus_read_cycle (simulated_target 0xAA []) 0 (power_on [])))))"
  by (simp add: trace_bus_read_cycle happens_before_def step_drive_def step_strobe_def step_float_def step_enable_def step_settle_def step_sample_def step_disable_def upt_rec bus_pins_def pin_defs)

section \<open>The data sampler (C9)\<close>

text \<open>
  C9. \<^verbatim>\<open>read_data\<close> reads the low eight lines: for \<open>i < 8\<close>, bit \<open>i\<close> of the byte
  it returns is the level of line \<open>i\<close> at the moment that line is read (after the reads
  of the lines below it). The other lines have no part in it: two worlds that agree on
  the low eight lines give the same byte.
\<close>

theorem read_data_packs_low_lines:
  "(i < 8 \<longrightarrow> bit (fst (read_data w s)) i = level w (trace s @ step_sample i) (bus_pins ! i))
   \<and> ((\<forall>tr i. i < 8 \<longrightarrow> level w' tr (bus_pins ! i) = level w tr (bus_pins ! i))
        \<longrightarrow> fst (read_data w' s) = fst (read_data w s))"
proof (intro conjI impI)
  assume "i < 8"
  then show "bit (fst (read_data w s)) i = level w (trace s @ step_sample i) (bus_pins ! i)"
    by (simp add: read_data_bit)
next
  assume "\<forall>tr i. i < 8 \<longrightarrow> level w' tr (bus_pins ! i) = level w tr (bus_pins ! i)"
  then show "fst (read_data w' s) = fst (read_data w s)"
    by (intro bit_eqI) (auto simp: read_data_bit)
qed

text \<open>
  On a target that answers \<open>0xAA\<close>, line 3 is high and so is bit 3; raising line 8 as
  well changes nothing.
\<close>

theorem read_data_packs_low_lines_witness:
  "(3 :: nat) < 8
   \<and> bit (fst (read_data (simulated_target 0xAA []) (power_on []))) 3
   \<and> level (simulated_target 0xAA []) (trace (power_on []) @ step_sample 3) (bus_pins ! 3)
   \<and> level ((simulated_target 0xAA []) \<lparr>level := \<lambda>tr p. p = bus_pins ! 8 \<or> level (simulated_target 0xAA []) tr p\<rparr>) [] (bus_pins ! 8)
       \<noteq> level (simulated_target 0xAA []) [] (bus_pins ! 8)
   \<and> fst (read_data ((simulated_target 0xAA []) \<lparr>level := \<lambda>tr p. p = bus_pins ! 8 \<or> level (simulated_target 0xAA []) tr p\<rparr>) (power_on []))
       = fst (read_data (simulated_target 0xAA []) (power_on []))
   \<and> fst (read_data (simulated_target 0xAA []) (power_on [])) = 0xAA"
proof -
  let ?w = "simulated_target 0xAA []"
  let ?w' = "?w \<lparr>level := \<lambda>tr p. p = bus_pins ! 8 \<or> level ?w tr p\<rparr>"
  have same: "\<forall>tr i. i < 8 \<longrightarrow> level ?w' tr (bus_pins ! i) = level ?w tr (bus_pins ! i)"
  proof (intro allI impI)
    fix tr :: "event list" and i :: nat
    assume "i < 8"
    then have "bus_pins ! i \<in> {25, 24, 12, 11, 10, 9, 8, 7}" by (rule low_lines)
    moreover have "bus_pins ! 8 = 6" by (simp add: bus_pins_def)
    ultimately show "level ?w' tr (bus_pins ! i) = level ?w tr (bus_pins ! i)"
      by auto
  qed
  have lvl: "level ?w (trace (power_on []) @ step_sample 3) (bus_pins ! 3)"
    by (simp add: simulated_level bus_pins_def HLDAK_def)
  have diff: "level ?w' [] (bus_pins ! 8) \<noteq> level ?w [] (bus_pins ! 8)"
    by (simp add: simulated_level bus_pins_def HLDAK_def)
  have val: "fst (read_data ?w (power_on [])) = 0xAA"
    by (simp add: read_data_value byte_on_lines_def simulated_level upt_rec bus_pins_def HLDAK_def)
  show ?thesis
    using read_data_packs_low_lines [of 3 ?w "power_on []" ?w'] same lvl diff val
    by simp
qed

section \<open>The address driver (C10)\<close>

text \<open>
  C10. \<^verbatim>\<open>drive_address\<close> looks at the low 20 bits of its argument only: driving
  \<open>a\<close> and driving \<open>a mod 2 ^ 20\<close> leave the same machine. Every one of the twenty bus
  lines ends up an output that carries its bit of \<open>a\<close>, and no other pin is touched.
\<close>

theorem drive_address_low_20_bits:
  "drive_address a s = drive_address (a mod 2 ^ 20) s
   \<and> (i < 20 \<longrightarrow> pin_dir (drive_address a s) (bus_pins ! i) = OUTPUT
                \<and> pin_out (drive_address a s) (bus_pins ! i) = bit a i)
   \<and> (p \<notin> set bus_pins \<longrightarrow> pin_dir (drive_address a s) p = pin_dir s p
                            \<and> pin_out (drive_address a s) p = pin_out s p)"
proof -
  have "a mod 2 ^ 20 = take_bit 20 a"
    by (simp only: take_bit_eq_mod)
  also have "\<dots> = a AND mask 20"
    by (simp only: take_bit_eq_mask)
  also have "mask 20 = (0xFFFFF :: 32 word)"
    by (simp add: mask_eq_exp_minus_1)
  finally have "a mod 2 ^ 20 = a AND 0xFFFFF" .
  then show ?thesis
    by (simp add: drive_address_mask pin_dir_drive_address pin_out_drive_address_other
        pin_out_drive_address_line)
qed

text \<open>Driving \<open>0x300005\<close> is driving \<open>5\<close>: line 2 (pin 12) is an output and high,
  the strobe pin is left alone.\<close>

theorem drive_address_low_20_bits_witness:
  "drive_address 0x300005 (power_on []) = drive_address 5 (power_on [])
   \<and> (2 :: nat) < 20
   \<and> bus_pins ! 2 = 12
   \<and> pin_dir (drive_address 0x300005 (power_on [])) 12 = OUTPUT
   \<and> pin_out (drive_address 0x300005 (power_on [])) 12
   \<and> ASTB \<notin> set bus_pins
   \<and> pin_dir (drive_address 0x300005 (power_on [])) ASTB = INPUT
   \<and> \<not> pin_out (drive_address 0x300005 (power_on [])) ASTB"
proof -
  have m: "(0x300005 :: 32 word) mod 2 ^ 20 = 5"
    by simp
  have l: "bus_pins ! 2 = 12" and b: "bit (0x300005 :: 32 word) 2"
    and p: "ASTB \<notin> set bus_pins"
    by (simp_all add: bus_pins_def ASTB_def)
  have s: "pin_dir (power_on []) ASTB = INPUT" "\<not> pin_out (power_on []) ASTB"
    by (simp_all add: power_on_def)
  from drive_address_low_20_bits [of "0x300005" "power_on []" 2 ASTB]
  show ?thesis
    unfolding m l using b p s by auto
qed

section \<open>The file slots (C7, C8)\<close>

text \<open>
  C7. The probing loop of \<^verbatim>\<open>setup()\<close>, started from the globals as initialised
  (number 0, name \<^verbatim>\<open>CWMEM000.BIN\<close>), returns with the number \<open>n\<close> and its name when
  the names of 0 up to \<open>n - 1\<close> exist on the card and the name of \<open>n\<close> does not, for
  every \<open>n\<close> up to 999: the first number, probing upward from 0, that has no file. With
  \<open>n = 0\<close> this is the empty card. (When all of 000 to 999 exist the loop halts instead:
  \<open>skip_existing_exhausted\<close>.)
\<close>

theorem skip_existing_first_free:
  "\<lbrakk>file_number s = 0; filename s = ''CWMEM000.BIN''; n \<le> 999;
    \<forall>k<n. sd_exists w (sprintf_CWMEM k); \<not> sd_exists w (sprintf_CWMEM n)\<rbrakk>
   \<Longrightarrow> skip_existing w s = Returned (s\<lparr>file_number := n, filename := sprintf_CWMEM n\<rparr>)"
  using skip_existing_from [of 0 n s w] by (simp add: sprintf_CWMEM_0)

text \<open>A card with the files 000 to 004 gives 5 and \<^verbatim>\<open>CWMEM005.BIN\<close>; an empty card
  leaves the globals as they are.\<close>

theorem skip_existing_first_free_witness:
  "file_number (power_on []) = 0 \<and> filename (power_on []) = ''CWMEM000.BIN'' \<and> (5 :: nat) \<le> 999
   \<and> sd_exists (simulated_target 0 [''CWMEM000.BIN'', ''CWMEM001.BIN'', ''CWMEM002.BIN'',
          ''CWMEM003.BIN'', ''CWMEM004.BIN'']) ''CWMEM004.BIN''
   \<and> \<not> sd_exists (simulated_target 0 [''CWMEM000.BIN'', ''CWMEM001.BIN'', ''CWMEM002.BIN'',
          ''CWMEM003.BIN'', ''CWMEM004.BIN'']) ''CWMEM005.BIN''
   \<and> skip_existing (simulated_target 0 [''CWMEM000.BIN'', ''CWMEM001.BIN'', ''CWMEM002.BIN'',
          ''CWMEM003.BIN'', ''CWMEM004.BIN'']) (power_on [])
       = Returned ((power_on [])\<lparr>file_number := 5, filename := ''CWMEM005.BIN''\<rparr>)
   \<and> skip_existing (simulated_target 0 []) (power_on []) = Returned (power_on [])"
proof -
  let ?w = "simulated_target 0 [''CWMEM000.BIN'', ''CWMEM001.BIN'', ''CWMEM002.BIN'',
          ''CWMEM003.BIN'', ''CWMEM004.BIN'']"
  have names: "sprintf_CWMEM 0 = ''CWMEM000.BIN''" "sprintf_CWMEM 1 = ''CWMEM001.BIN''"
    "sprintf_CWMEM 2 = ''CWMEM002.BIN''" "sprintf_CWMEM 3 = ''CWMEM003.BIN''"
    "sprintf_CWMEM 4 = ''CWMEM004.BIN''" "sprintf_CWMEM 5 = ''CWMEM005.BIN''"
    by code_simp+
  have init: "file_number (power_on []) = 0" "filename (power_on []) = ''CWMEM000.BIN''"
    by (simp_all add: power_on_def)
  have one: "sprintf_CWMEM (Suc 0) = ''CWMEM001.BIN''"
    by code_simp
  have used: "\<forall>k<5. sd_exists ?w (sprintf_CWMEM k)"
  proof (intro allI impI)
    fix k :: nat
    assume "k < 5"
    then consider "k = 0" | "k = 1" | "k = 2" | "k = 3" | "k = 4"
      by arith
    then show "sd_exists ?w (sprintf_CWMEM k)"
      by cases (simp_all add: sd_exists_simulated names one)
  qed
  have free: "\<not> sd_exists ?w (sprintf_CWMEM 5)"
    by (simp add: sd_exists_simulated names)
  have five: "skip_existing ?w (power_on [])
      = Returned ((power_on [])\<lparr>file_number := 5, filename := sprintf_CWMEM 5\<rparr>)"
    using skip_existing_first_free [of "power_on []" 5 ?w] init used free by simp
  have none: "skip_existing (simulated_target 0 []) (power_on [])
      = Returned ((power_on [])\<lparr>file_number := 0, filename := sprintf_CWMEM 0\<rparr>)"
    using skip_existing_first_free [of "power_on []" 0 "simulated_target 0 []"] init
    by (simp add: sd_exists_simulated)
  have same: "(power_on [])\<lparr>file_number := 0, filename := sprintf_CWMEM 0\<rparr> = power_on []"
    by (simp add: power_on_def names)
  show ?thesis
    using init five none free used unfolding same names
    by (simp add: sd_exists_simulated)
qed

text \<open>
  C8. \<^verbatim>\<open>next_file\<close> at number 999 halts with the message of the sketch; the number
  stands at 1000 and has not wrapped around, and no name was formatted for it. Whenever
  \<^verbatim>\<open>next_file\<close> returns, the number is at most 999 and the name is the twelve
  characters made from it.
\<close>

theorem next_file_halts_after_999:
  "(file_number s = 999 \<longrightarrow>
      (\<exists>h. next_file s = Halted TooManyFiles h \<and> file_number h = 1000 \<and> filename h = filename s))
   \<and> (next_file s = Returned s' \<longrightarrow>
        file_number s' = file_number s + 1 \<and> file_number s' \<le> 999
        \<and> filename s' = sprintf_CWMEM (file_number s') \<and> length (filename s') = 12)"
  by (auto simp: next_file_def Let_def length_sprintf_CWMEM split: if_splits)

text \<open>At 999 the sketch halts; from 998 it steps to 999 and \<^verbatim>\<open>CWMEM999.BIN\<close>.\<close>

theorem next_file_halts_after_999_witness:
  "file_number ((power_on [])\<lparr>file_number := 999, filename := ''CWMEM999.BIN''\<rparr>) = 999
   \<and> (\<exists>h. next_file ((power_on [])\<lparr>file_number := 999, filename := ''CWMEM999.BIN''\<rparr>)
            = Halted TooManyFiles h
          \<and> file_number h = 1000 \<and> filename h = ''CWMEM999.BIN'')
   \<and> next_file ((power_on [])\<lparr>file_number := 998, filename := ''CWMEM998.BIN''\<rparr>)
       = Returned ((power_on [])\<lparr>file_number := 999, filename := ''CWMEM999.BIN''\<rparr>)
   \<and> length (filename ((power_on [])\<lparr>file_number := 999, filename := ''CWMEM999.BIN''\<rparr>)) = 12"
proof -
  let ?s = "(power_on [])\<lparr>file_number := 999, filename := ''CWMEM999.BIN''\<rparr>"
  let ?r = "(power_on [])\<lparr>file_number := 998, filename := ''CWMEM998.BIN''\<rparr>"
  have n: "file_number ?s = 999" "filename ?s = ''CWMEM999.BIN''"
    by simp_all
  have "sprintf_CWMEM 999 = ''CWMEM999.BIN''"
    by code_simp
  then have r: "next_file ?r = Returned ?s"
    by (simp add: next_file_def Let_def)
  have A: "\<exists>h. next_file ?s = Halted TooManyFiles h \<and> file_number h = 1000
              \<and> filename h = filename ?s"
    using next_file_halts_after_999 [of ?s ?s] n(1) by blast
  have B: "length (filename ?s) = 12"
    using next_file_halts_after_999 [of ?r ?s] r by blast
  show ?thesis
    using A B r by simp
qed

section \<open>The dump (C4, C5)\<close>

text \<open>
  C4. One dump runs the body \<^verbatim>\<open>dumpfile.write(bus_read_cycle(addr))\<close> once for each of
  the 1,048,576 addresses, in ascending order: the loop over the 32-bit counter is the
  fold of the body over \<open>[0..<1048576]\<close>. On the lines, the address latch captures
  exactly \<open>0, 1, \<dots>, 0xFFFFF\<close> in this order. The bytes handed to the file are, in the
  same order, the bytes the read cycles returned: the \<open>k\<close>-th is the result of the read
  cycle of address \<open>k\<close>, run after the dump of the addresses below \<open>k\<close>.
\<close>

theorem dump_loop_visits_every_address_once:
  "dump_loop w 0 s = fold (\<lambda>k. dump_byte w (word_of_nat k)) [0..<1048576] s
   \<and> latched_addresses (added s (dump_loop w 0 s)) = [0..<1048576]
   \<and> forwarded (added s (dump_loop w 0 s)) =
       map (\<lambda>k. fst (bus_read_cycle w (word_of_nat k) (dump_upto w k s))) [0..<1048576]"
  by (simp add: dump_loop_fold forwarded_dump_upto latched_addresses_dump_upto
      flip: dump_upto_def)




section \<open>The bus handshake (C6, C2)\<close>

text \<open>
  C6. Whenever \<^verbatim>\<open>loop()\<close> comes to an end, by returning or in a halt, its log has this
  shape. Nothing touches the bus before the hold request is written. The request is
  followed at once by polls of the acknowledge line, and the last of them is the first
  that shows the acknowledgement: the sketch goes on to the bus only after it has seen the
  bus granted. Unless the pass ends in the halt for a file that cannot be opened (the bus
  then stays held, and the request is never written again), the release of the request
  comes later, it is followed at once by polls the last of which is the first to show the
  acknowledgement withdrawn, and after these nothing touches the bus or the request any
  more. A pass whose poll never sees the level it waits for does not come to an end.
\<close>

theorem loop_waits_for_acknowledge:
  assumes "loop w s = Some out"
  shows "\<exists>pre n rest.
      added s (state_of out) = pre @ [DigitalWrite HLDRQ BUS_HOLD] @ polls (Suc n) @ rest
    \<and> \<not> list_ex touches_bus pre \<and> \<not> list_ex writes_hold pre
    \<and> polled_until w BUS_ACK (trace s @ pre @ [DigitalWrite HLDRQ BUS_HOLD]) n
    \<and> ((\<exists>h. out = Halted OpenFailed h) \<longrightarrow> \<not> list_ex writes_hold rest)
    \<and> ((\<forall>h. out \<noteq> Halted OpenFailed h) \<longrightarrow>
         (\<exists>mid m post.
              rest = mid @ [DigitalWrite HLDRQ BUS_RELEASE] @ polls (Suc m) @ post
            \<and> \<not> list_ex writes_hold mid
            \<and> polled_until w BUS_NAK
                 (trace s @ pre @ [DigitalWrite HLDRQ BUS_HOLD] @ polls (Suc n) @ mid
                    @ [DigitalWrite HLDRQ BUS_RELEASE]) m
            \<and> \<not> list_ex touches_bus post \<and> \<not> list_ex writes_hold post))"
proof -
  let ?prompt = "SerialPrint (([CHR 0x0A, CHR 0x0A]
      @ ''Hit Enter to dump the entire address space to a file.'') @ [CHR 0x0D, CHR 0x0A])"
  let ?seizing = "SerialPrint ''Seizing the bus ... ''"
  let ?ok = "SerialPrint (''ok'' @ [CHR 0x0D, CHR 0x0A])"
  let ?pre = "[?prompt, ?seizing]"
  let ?s1 = "Serial_println ([CHR 0x0A, CHR 0x0A]
      @ ''Hit Enter to dump the entire address space to a file.'') s"
  from assms obtain keys s2 where
    seize: "loop_seize w (?s1\<lparr>serial_in := keys\<rparr>) = Some s2"
    and after: "(case loop_capture w (digitalWrite LED_BUILTIN HIGH s2) of
          Halted f s3 \<Rightarrow> Some (Halted f s3)
        | Returned s3 \<Rightarrow>
            (case loop_release w s3 of
               None \<Rightarrow> None
             | Some s4 \<Rightarrow>
                 (let s5 = digitalWrite LED_BUILTIN LOW s4;
                      s6 = Serial_print ''Memory dumped to file '' s5;
                      s7 = Serial_println (filename s6) s6
                  in Some (next_file s7)))) = Some out"
    by (auto simp: loop_def Let_def split: option.splits)
  from loop_seize_Some [OF seize] obtain n where
    tr2: "trace s2 = trace s @ ?pre @ [DigitalWrite HLDRQ BUS_HOLD] @ polls (Suc n) @ [?ok]"
    and ack: "polled_until w BUS_ACK (trace s @ ?pre @ [DigitalWrite HLDRQ BUS_HOLD]) n"
    by auto
  let ?c = "loop_capture w (digitalWrite LED_BUILTIN HIGH s2)"
  from trace_loop_capture [of w "digitalWrite LED_BUILTIN HIGH s2"] obtain es where
    trc: "trace (state_of ?c) = trace s2 @ [DigitalWrite LED_BUILTIN HIGH] @ es"
    and es: "\<not> list_ex writes_hold es"
    by (auto simp: writes_hold_iff)
  have pre: "\<not> list_ex touches_bus ?pre" "\<not> list_ex writes_hold ?pre"
    by simp_all
  show ?thesis
  proof (cases ?c)
    case (Halted f h)
    with after have out: "out = Halted f h" by simp
    from Halted have f: "f = OpenFailed" by (rule loop_capture_halts_on_open)
    let ?rest = "[?ok, DigitalWrite LED_BUILTIN HIGH] @ es"
    have "added s (state_of out) = ?pre @ [DigitalWrite HLDRQ BUS_HOLD] @ polls (Suc n) @ ?rest"
      using trc Halted out tr2 by (intro added_append) simp
    moreover have "\<not> list_ex writes_hold ?rest"
      using es by (simp add: pin_defs)
    ultimately show ?thesis
      using pre ack out f by blast
  next
    case (Returned s3)
    with after obtain s4 where release: "loop_release w s3 = Some s4"
      and out: "out = next_file (Serial_println (filename s4)
          (Serial_print ''Memory dumped to file '' (digitalWrite LED_BUILTIN LOW s4)))"
      by (auto simp: Let_def split: option.splits)
    let ?releasing = "SerialPrint ''Releasing the bus ... ''"
    let ?mid = "[?ok, DigitalWrite LED_BUILTIN HIGH] @ es @ [?releasing]"
    from trc Returned have tr3: "trace s3 = trace s2 @ [DigitalWrite LED_BUILTIN HIGH] @ es"
      by simp
    from loop_release_Some [OF release] obtain m where
      tr4: "trace s4 = trace s3 @ [?releasing, DigitalWrite HLDRQ BUS_RELEASE] @ polls (Suc m) @ [?ok]"
      and nak: "polled_until w BUS_NAK (trace s3 @ [?releasing, DigitalWrite HLDRQ BUS_RELEASE]) m"
      by auto
    let ?s7 = "Serial_println (filename s4)
          (Serial_print ''Memory dumped to file '' (digitalWrite LED_BUILTIN LOW s4))"
    from trace_next_file [of ?s7] obtain fs where
      trn: "trace (state_of (next_file ?s7)) = trace ?s7 @ fs"
      and fs: "\<not> list_ex touches_bus fs" "\<not> list_ex writes_hold fs"
      by blast
    let ?post = "[?ok, DigitalWrite LED_BUILTIN LOW, SerialPrint ''Memory dumped to file '',
        SerialPrint (filename s4 @ [CHR 0x0D, CHR 0x0A])] @ fs"
    let ?rest = "?mid @ [DigitalWrite HLDRQ BUS_RELEASE] @ polls (Suc m) @ ?post"
    have "added s (state_of out) = ?pre @ [DigitalWrite HLDRQ BUS_HOLD] @ polls (Suc n) @ ?rest"
      unfolding out using trn tr4 tr3 tr2 by (intro added_append) simp
    moreover have "\<not> list_ex writes_hold ?mid"
      using es by (simp add: pin_defs)
    moreover have "polled_until w BUS_NAK
        (trace s @ ?pre @ [DigitalWrite HLDRQ BUS_HOLD] @ polls (Suc n) @ ?mid
           @ [DigitalWrite HLDRQ BUS_RELEASE]) m"
      using nak tr3 tr2 by simp
    moreover have "\<not> list_ex touches_bus ?post" "\<not> list_ex writes_hold ?post"
      using fs by (simp_all add: pin_defs bus_lines_def bus_pins_def)
    moreover have "\<forall>h. out \<noteq> Halted OpenFailed h"
      unfolding out by (simp add: next_file_not_open)
    ultimately show ?thesis
      using pre ack by blast
  qed
qed

text \<open>A whole pass on the simulated target, the operator typing Enter: it returns, and its
  log has the shape above.\<close>

theorem loop_waits_for_acknowledge_witness:
  "\<exists>out. loop (simulated_target 0xAA []) (power_on [CHR 0x0A]) = Some out
     \<and> (\<exists>r. out = Returned r)
     \<and> (\<exists>pre n rest.
          added (power_on [CHR 0x0A]) (state_of out)
            = pre @ [DigitalWrite HLDRQ BUS_HOLD] @ polls (Suc n) @ rest
        \<and> \<not> list_ex touches_bus pre \<and> \<not> list_ex writes_hold pre
        \<and> polled_until (simulated_target 0xAA []) BUS_ACK
             (trace (power_on [CHR 0x0A]) @ pre @ [DigitalWrite HLDRQ BUS_HOLD]) n
        \<and> (\<exists>mid m post.
              rest = mid @ [DigitalWrite HLDRQ BUS_RELEASE] @ polls (Suc m) @ post
            \<and> \<not> list_ex writes_hold mid
            \<and> polled_until (simulated_target 0xAA []) BUS_NAK
                 (trace (power_on [CHR 0x0A]) @ pre @ [DigitalWrite HLDRQ BUS_HOLD]
                    @ polls (Suc n) @ mid @ [DigitalWrite HLDRQ BUS_RELEASE]) m
            \<and> \<not> list_ex touches_bus post \<and> \<not> list_ex writes_hold post))"
proof -
  let ?w = "simulated_target 0xAA []" and ?s = "power_on [CHR 0x0A]"
  have "read_until_newline (serial_in ?s) = Some []" "file_number ?s < 999"
    by (simp_all add: power_on_def)
  from loop_simulated [OF this, of "0xAA" "[]"] obtain r where
    run: "loop ?w ?s = Some (Returned r)"
    by blast
  from loop_waits_for_acknowledge [OF run] run show ?thesis
    by (intro exI [of _ "Returned r"]) simp
qed

text \<open>
  C2 does not hold of the sketch: \<^verbatim>\<open>bus_state_not_driven\<close> is never called. On the
  simulated target, the machine that the dump hands to the release of the bus has the six
  control lines and the address lines 8 to 19 as outputs, and so has the machine that
  \<^verbatim>\<open>loop()\<close> returns, with the hold request withdrawn.
\<close>

theorem lines_still_driven_after_release:
  "\<exists>s r. loop_capture (simulated_target 0xAA []) (power_on []) = Returned s
     \<and> list_all (\<lambda>p. pin_dir s p = OUTPUT) ([BUFEN, BUFRW, ASTB, RD, WR, IOMEM] @ drop 8 bus_pins)
     \<and> loop (simulated_target 0xAA []) (power_on [CHR 0x0A]) = Some (Returned r)
     \<and> pin_out r HLDRQ = BUS_RELEASE
     \<and> list_all (\<lambda>p. pin_dir r p = OUTPUT) ([BUFEN, BUFRW, ASTB, RD, WR, IOMEM] @ drop 8 bus_pins)"
proof -
  let ?w = "simulated_target 0xAA []" and ?s = "power_on [CHR 0x0A]"
  obtain s where s: "loop_capture ?w (power_on []) = Returned s"
    using loop_capture_simulated by blast
  have "read_until_newline (serial_in ?s) = Some []" "file_number ?s < 999"
    by (simp_all add: power_on_def)
  from loop_simulated [OF this, of "0xAA" "[]"] obtain r where
    r: "loop ?w ?s = Some (Returned r)" "pin_out r HLDRQ = BUS_RELEASE"
    "pin_dir r = after_dump ((pin_dir ?s)(BUFEN := OUTPUT, BUFRW := OUTPUT, ASTB := OUTPUT,
        RD := OUTPUT, WR := OUTPUT, IOMEM := OUTPUT))"
    by blast
  have "list_all (\<lambda>p. after_dump (d(BUFEN := OUTPUT, BUFRW := OUTPUT, ASTB := OUTPUT,
        RD := OUTPUT, WR := OUTPUT, IOMEM := OUTPUT)) p = OUTPUT)
      ([BUFEN, BUFRW, ASTB, RD, WR, IOMEM] @ drop 8 bus_pins)" for d
    by (simp add: after_dump_def bus_pins_def pin_defs)
  with s r loop_capture_Returned [OF s] show ?thesis
    by (intro exI [of _ s] exI [of _ r]) simp
qed

end
